theory Spec2Isabelle
  imports Main "HOL-Library.Word" "HOL-Library.Multiset"
begin

section \<open>The program\<close>

subsection \<open>The checksum engine (\<^verbatim>\<open>crc64_simple.c\<close>)\<close>

unbundle bit_operations_syntax

type_synonym byte = "8 word"
type_synonym u64 = "64 word"

definition CRC64_POLY_ECMA :: u64 where
  "CRC64_POLY_ECMA = 0x42F0E1EBA9EA3693"

record crc64_state =
  crc64_table :: "u64 list"
  crc64_initialized :: bool

definition crc64_start :: crc64_state where
  "crc64_start = \<lparr>crc64_table = replicate 256 0, crc64_initialized = False\<rparr>"

function crc64_init_bits :: "u64 \<Rightarrow> u64 \<Rightarrow> nat \<Rightarrow> u64" where
  "crc64_init_bits poly crc j =
     (if j < 8
      then crc64_init_bits poly
             (if crc AND 1 \<noteq> 0 then drop_bit 1 crc XOR poly else drop_bit 1 crc) (j + 1)
      else crc)"
  by pat_completeness auto
termination
  by (relation "measure (\<lambda>(poly, crc, j). 8 - j)") auto

function crc64_init_table :: "u64 \<Rightarrow> u64 list \<Rightarrow> nat \<Rightarrow> u64 list" where
  "crc64_init_table poly table i =
     (if i < 256
      then crc64_init_table poly (table[i := crc64_init_bits poly (of_nat i) 0]) (i + 1)
      else table)"
  by pat_completeness auto
termination
  by (relation "measure (\<lambda>(poly, table, i). 256 - i)") auto

declare crc64_init_bits.simps [simp del] crc64_init_table.simps [simp del]

definition crc64_init :: "crc64_state \<Rightarrow> crc64_state" where
  "crc64_init st =
     (if crc64_initialized st then st
      else \<lparr>crc64_table = crc64_init_table CRC64_POLY_ECMA (crc64_table st) 0,
            crc64_initialized = True\<rparr>)"

function crc64_update_loop :: "u64 list \<Rightarrow> u64 \<Rightarrow> byte list \<Rightarrow> nat \<Rightarrow> nat \<Rightarrow> u64" where
  "crc64_update_loop table crc data len i =
     (if i < len
      then crc64_update_loop table
             (table ! unat ((crc XOR ucast (data ! i)) AND 0xFF) XOR drop_bit 8 crc)
             data len (i + 1)
      else crc)"
  by pat_completeness auto
termination
  by (relation "measure (\<lambda>(table, crc, data, len, i). len - i)") auto

declare crc64_update_loop.simps [simp del]

definition crc64_update :: "crc64_state \<Rightarrow> u64 \<Rightarrow> byte list \<Rightarrow> nat \<Rightarrow> u64 \<times> crc64_state" where
  "crc64_update st crc data len =
     (let st' = crc64_init st
      in (crc64_update_loop (crc64_table st') crc data len 0, st'))"

definition crc64_compute :: "crc64_state \<Rightarrow> byte list \<Rightarrow> nat \<Rightarrow> u64 \<times> crc64_state" where
  "crc64_compute st data len = crc64_update st 0 data len"


subsection \<open>The checksum as the specification words it\<close>

text \<open>The table of the standard construction (eight shift/XOR iterations per entry, from
  the ECMA-182 polynomial), the byte recurrence, and the digest as a fold from zero.\<close>

definition crc64_shift_xor :: "u64 \<Rightarrow> u64 \<Rightarrow> u64" where
  "crc64_shift_xor poly c = (if bit c 0 then drop_bit 1 c XOR poly else drop_bit 1 c)"

definition crc64_table_spec :: "u64 list" where
  "crc64_table_spec =
     map (\<lambda>i. (crc64_shift_xor 0x42F0E1EBA9EA3693 ^^ 8) (of_nat i)) [0..<256]"

definition crc64_byte_step :: "u64 list \<Rightarrow> byte \<Rightarrow> u64 \<Rightarrow> u64" where
  "crc64_byte_step table b crc = table ! unat ((crc XOR ucast b) AND 0xFF) XOR drop_bit 8 crc"

definition crc64_digest :: "byte list \<Rightarrow> u64" where
  "crc64_digest data = fold (crc64_byte_step crc64_table_spec) data 0"

text \<open>The states of the two static variables that the program can reach: the table has its
  256 entries, and once the flag is set it is the table that \<^verbatim>\<open>crc64_init\<close> builds.\<close>

definition crc64_ok :: "crc64_state \<Rightarrow> bool" where
  "crc64_ok st \<longleftrightarrow>
     length (crc64_table st) = 256 \<and>
     (crc64_initialized st \<longrightarrow> crc64_table st = crc64_init_table CRC64_POLY_ECMA (replicate 256 0) 0)"

subsection \<open>Configuration constants and size arithmetic of \<^verbatim>\<open>read_file.c\<close>\<close>

definition BLOCK_SIZE :: nat where
  "BLOCK_SIZE = 16 * 1024 * 1024"

definition MAX_QUEUE_SIZE :: nat where
  "MAX_QUEUE_SIZE = 16"

definition NUM_READERS :: nat where
  "NUM_READERS = 4"

definition NUM_CONSUMERS :: nat where
  "NUM_CONSUMERS = 4"

text \<open>\<^verbatim>\<open>size_t\<close> is an unsigned 64-bit integer: sums and products wrap modulo \<open>2 ^ 64\<close>.\<close>

definition size_t :: "nat \<Rightarrow> nat" where
  "size_t n = n mod 2 ^ 64"

definition size_t_sub :: "nat \<Rightarrow> nat \<Rightarrow> nat" where
  "size_t_sub a b = (a + 2 ^ 64 - b mod 2 ^ 64) mod 2 ^ 64"

subsection \<open>Accumulating block digests\<close>

text \<open>The statement \<^verbatim>\<open>hash ^= block_hash\<close> of \<^verbatim>\<open>process_block_xor\<close> and
  \<^verbatim>\<open>process_buffer_data\<close>.\<close>

definition xor_accumulate :: "u64 \<Rightarrow> u64 \<Rightarrow> u64" where
  "xor_accumulate hash_xor block_hash = hash_xor XOR block_hash"

definition process_block_xor ::
  "crc64_state \<Rightarrow> byte list \<Rightarrow> nat \<Rightarrow> u64 \<Rightarrow> u64 \<times> crc64_state" where
  "process_block_xor st data sz hash_xor =
     (let (block_hash, st') = crc64_compute st data sz
      in (xor_accumulate hash_xor block_hash, st'))"

subsection \<open>Printed lines\<close>

text \<open>One constructor per \<^verbatim>\<open>printf\<close> or \<^verbatim>\<open>fprintf\<close> of the asynchronous path, in one
  stream; the elapsed time itself is not represented.\<close>

datatype msg =
    AsyncBanner
  | CannotOpenFile
  | FileIsEmpty
  | FileSize nat
  | ConsumerCreateFailed nat
  | ConsumerCreated nat
  | ReaderCreateFailed nat
  | ReaderCreated nat
  | AllReadersCompleted
  | AllConsumersCompleted
  | HashXor u64
  | TotalFileSize nat
  | Elapsed
  | ReaderOpenError nat
  | ReaderAllocError nat
  | Enqueued nat nat nat nat
  | ReaderCompleted nat nat
  | ProcessedBuffer nat u64

text \<open>\<^verbatim>\<open>if (verbosity >= lvl) printf(...)\<close>.\<close>

definition say :: "int \<Rightarrow> int \<Rightarrow> msg \<Rightarrow> msg list \<Rightarrow> msg list" where
  "say verbosity lvl m out = (if verbosity \<ge> lvl then out @ [m] else out)"

subsection \<open>The environment: file system, allocator, thread creation\<close>

text \<open>Every call whose outcome the program tests is an oracle here, so that each failure
  branch of the source is a branch of the model. \<open>file_size_probe\<close> is \<open>None\<close> when
  \<^verbatim>\<open>fopen\<close> in \<^verbatim>\<open>get_file_size\<close> fails and the \<^verbatim>\<open>ftell\<close> value otherwise;
  \<open>fread_at off n\<close> are the bytes delivered by \<^verbatim>\<open>fread\<close> of \<open>n\<close> bytes after a seek to
  \<open>off\<close>.\<close>

record env =
  file_size_probe :: "nat option"
  consumer_create_ok :: "nat \<Rightarrow> bool"
  reader_create_ok :: "nat \<Rightarrow> bool"
  reader_fopen_ok :: "nat \<Rightarrow> bool"
  reader_malloc_ok :: "nat \<Rightarrow> bool"
  fseek_ok :: "nat \<Rightarrow> bool"
  fread_at :: "nat \<Rightarrow> nat \<Rightarrow> byte list"
  node_malloc_ok :: "nat \<Rightarrow> bool"
  data_malloc_ok :: "nat \<Rightarrow> bool"

definition get_file_size :: "int \<Rightarrow> env \<Rightarrow> msg list \<Rightarrow> nat option \<times> msg list" where
  "get_file_size verbosity e out =
     (case file_size_probe e of
        None \<Rightarrow> (None, say verbosity 2 CannotOpenFile out)
      | Some n \<Rightarrow>
          if n = 0 then (None, say verbosity 2 FileIsEmpty out)
          else (Some n, say verbosity 2 (FileSize n) out))"

subsection \<open>The bounded queue\<close>

text \<open>The linked list from \<^verbatim>\<open>head\<close> to \<^verbatim>\<open>tail\<close> is the list \<open>nodes\<close> of the buffers
  held by its nodes (a node's \<^verbatim>\<open>size\<close> is the length of its buffer); the two semaphores are
  their counter values.\<close>

record BufferQueue =
  nodes :: "byte list list"
  qcount :: int
  empty_slots :: nat
  full_slots :: nat
  reading_done :: bool
  active_readers :: int
  total_blocks :: nat
  next_block :: nat
  file_size :: nat

definition init_buffer_queue :: BufferQueue where
  "init_buffer_queue =
     \<lparr>nodes = [], qcount = 0, empty_slots = MAX_QUEUE_SIZE, full_slots = 0,
      reading_done = False, active_readers = 0, total_blocks = 0, next_block = 0,
      file_size = 0\<rparr>"

text \<open>\<^verbatim>\<open>sem_wait\<close> on a counter: \<open>None\<close> when the caller has to block.\<close>

definition sem_wait :: "nat \<Rightarrow> nat option" where
  "sem_wait n = (if n = 0 then None else Some (n - 1))"

definition sem_post :: "nat \<Rightarrow> nat" where
  "sem_post n = n + 1"

text \<open>The critical section of \<^verbatim>\<open>enqueue_buffer\<close>; the two flags are the outcomes of the
  two \<^verbatim>\<open>malloc\<close> calls.\<close>

definition enqueue_locked ::
  "bool \<Rightarrow> bool \<Rightarrow> byte list \<Rightarrow> nat \<Rightarrow> BufferQueue \<Rightarrow> bool \<times> BufferQueue" where
  "enqueue_locked node_ok data_ok data sz q =
     (if \<not> node_ok then (False, q)
      else if \<not> data_ok then (False, q)
      else (True, q\<lparr>nodes := nodes q @ [take sz data], qcount := qcount q + 1\<rparr>))"

text \<open>\<^verbatim>\<open>enqueue_buffer\<close> run without interruption: \<open>None\<close> when it blocks on
  \<^verbatim>\<open>empty_slots\<close>, otherwise the returned \<^verbatim>\<open>int\<close> and the queue.\<close>

definition enqueue_buffer ::
  "bool \<Rightarrow> bool \<Rightarrow> BufferQueue \<Rightarrow> byte list \<Rightarrow> nat \<Rightarrow> (int \<times> BufferQueue) option" where
  "enqueue_buffer node_ok data_ok q data sz =
     (case sem_wait (empty_slots q) of
        None \<Rightarrow> None
      | Some n \<Rightarrow>
          (let (ok, q') = enqueue_locked node_ok data_ok data sz (q\<lparr>empty_slots := n\<rparr>)
           in if ok then Some (1, q'\<lparr>full_slots := sem_post (full_slots q')\<rparr>)
              else Some (0, q'\<lparr>empty_slots := sem_post (empty_slots q')\<rparr>)))"

text \<open>The critical section of \<^verbatim>\<open>dequeue_buffer\<close>. With \<^verbatim>\<open>count\<close> nonzero and no node
  the source dereferences a null \<^verbatim>\<open>head\<close>: \<open>DeqNull\<close>.\<close>

datatype dequeued = DeqDrained | DeqNotYet | DeqNode "byte list" | DeqNull

definition dequeue_locked :: "BufferQueue \<Rightarrow> dequeued \<times> BufferQueue" where
  "dequeue_locked q =
     (if qcount q = 0
      then (let done = reading_done q \<and> active_readers q = 0
            in if \<not> done then (DeqNotYet, q) else (DeqDrained, q))
      else (case nodes q of
              [] \<Rightarrow> (DeqNull, q)
            | node # rest \<Rightarrow> (DeqNode node, q\<lparr>nodes := rest, qcount := qcount q - 1\<rparr>)))"

text \<open>\<^verbatim>\<open>dequeue_buffer\<close> run without interruption: \<open>None\<close> when it blocks on
  \<^verbatim>\<open>full_slots\<close> (or crashes on the null \<^verbatim>\<open>head\<close>), otherwise the returned
  \<^verbatim>\<open>int\<close>, the buffer handed out, and the queue.\<close>

definition dequeue_buffer :: "BufferQueue \<Rightarrow> (int \<times> byte list option \<times> BufferQueue) option" where
  "dequeue_buffer q =
     (case sem_wait (full_slots q) of
        None \<Rightarrow> None
      | Some n \<Rightarrow>
          (case dequeue_locked (q\<lparr>full_slots := n\<rparr>) of
             (DeqNotYet, q') \<Rightarrow> Some (0, None, q'\<lparr>full_slots := sem_post (full_slots q')\<rparr>)
           | (DeqDrained, q') \<Rightarrow> Some (0, None, q')
           | (DeqNode node, q') \<Rightarrow>
               Some (1, Some node, q'\<lparr>empty_slots := sem_post (empty_slots q')\<rparr>)
           | (DeqNull, q') \<Rightarrow> None))"

text \<open>The claim of the next block index by a reader (the critical section at the head of the
  loop of \<^verbatim>\<open>reader_thread\<close>).\<close>

definition reserve_next_block :: "BufferQueue \<Rightarrow> nat option \<times> BufferQueue" where
  "reserve_next_block q =
     (if next_block q \<ge> total_blocks q then (None, q)
      else (Some (next_block q), q\<lparr>next_block := size_t (next_block q + 1)\<rparr>))"

text \<open>Offset and length of a claimed block, and the read itself: \<open>None\<close> is the
  \<^verbatim>\<open>break\<close> after a failed \<^verbatim>\<open>fseek\<close> or a read of zero bytes.\<close>

definition block_offset :: "nat \<Rightarrow> nat" where
  "block_offset block_index = size_t (block_index * BLOCK_SIZE)"

definition block_bytes_to_read :: "nat \<Rightarrow> nat \<Rightarrow> nat" where
  "block_bytes_to_read fsize block_index =
     (let offset = block_offset block_index; bytes_to_read = BLOCK_SIZE
      in if size_t (offset + bytes_to_read) > fsize then size_t_sub fsize offset
         else bytes_to_read)"

definition read_block :: "env \<Rightarrow> nat \<Rightarrow> nat \<Rightarrow> byte list option" where
  "read_block e fsize block_index =
     (let offset = block_offset block_index;
          bytes_to_read = block_bytes_to_read fsize block_index
      in if \<not> fseek_ok e offset then None
         else (let buf = take bytes_to_read (fread_at e offset bytes_to_read)
               in if length buf = 0 then None else Some buf))"

subsection \<open>Threads of the asynchronous pipeline\<close>

text \<open>A thread is at one of its synchronisation points. An atomic step is a semaphore
  operation or a critical section of a mutex, together with the thread-local code that
  follows it; \<^verbatim>\<open>total_bytes\<close>, \<^verbatim>\<open>block_index\<close> and the buffer are the reader's locals.\<close>

datatype reader_pc =
    RNotCreated
  | RStart
  | RClaim nat
  | RRead nat nat
  | REnqWait nat nat "byte list"
  | REnqLocked nat nat "byte list"
  | REnqPostFull nat nat "byte list"
  | REnqPostEmpty nat nat "byte list"
  | RFinish nat
  | RDone

datatype consumer_pc =
    CNotCreated
  | CCheck
  | CDeqWait
  | CDeqLocked
  | CDeqRepost
  | CDeqPostEmpty "byte list"
  | CProcess "byte list"
  | CDone

datatype orch_pc =
    OStart
  | OSpawnConsumer nat
  | OSetActive
  | OSpawnReader nat
  | OJoinReader nat
  | OWake nat
  | OJoinConsumer nat
  | OReport
  | ODone

record state =
  queue :: BufferQueue
  global_hash_xor :: u64
  crc_tab :: crc64_state
  printed :: "msg list"
  orch :: orch_pc
  readers :: "reader_pc list"
  consumers :: "consumer_pc list"

text \<open>The program before \<^verbatim>\<open>async_sequential_read\<close> is called: \<^verbatim>\<open>global_hash_xor\<close> has
  its static initialiser, no thread exists, and the table state is what the earlier
  strategies left.\<close>

definition async_start :: "crc64_state \<Rightarrow> state" where
  "async_start c =
     \<lparr>queue = init_buffer_queue, global_hash_xor = 0, crc_tab = c, printed = [], orch = OStart,
      readers = replicate NUM_READERS RNotCreated,
      consumers = replicate NUM_CONSUMERS CNotCreated\<rparr>"

text \<open>\<^verbatim>\<open>process_buffer_data\<close>.\<close>

definition process_buffer_data :: "int \<Rightarrow> byte list \<Rightarrow> nat \<Rightarrow> state \<Rightarrow> state" where
  "process_buffer_data verbosity data sz s =
     (let (block_hash, c) = crc64_compute (crc_tab s) data sz
      in s\<lparr>crc_tab := c,
           global_hash_xor := xor_accumulate (global_hash_xor s) block_hash,
           printed := say verbosity 2 (ProcessedBuffer sz block_hash) (printed s)\<rparr>)"

text \<open>\<^verbatim>\<open>reader_thread\<close> up to its loop: the two early exits and the entry of the loop.\<close>

definition reader_open :: "int \<Rightarrow> env \<Rightarrow> nat \<Rightarrow> state \<Rightarrow> state" where
  "reader_open verbosity e i s =
     (if \<not> reader_fopen_ok e i
      then s\<lparr>printed := say verbosity 2 (ReaderOpenError i) (printed s),
             queue := (queue s)\<lparr>active_readers := active_readers (queue s) - 1\<rparr>,
             readers := (readers s)[i := RDone]\<rparr>
      else if \<not> reader_malloc_ok e i
      then s\<lparr>printed := say verbosity 2 (ReaderAllocError i) (printed s),
             queue := (queue s)\<lparr>active_readers := active_readers (queue s) - 1\<rparr>,
             readers := (readers s)[i := RDone]\<rparr>
      else s\<lparr>readers := (readers s)[i := RClaim 0]\<rparr>)"

text \<open>The end of \<^verbatim>\<open>reader_thread\<close> after the loop (``Mark reader as done'').\<close>

definition reader_finish :: "int \<Rightarrow> nat \<Rightarrow> nat \<Rightarrow> state \<Rightarrow> state" where
  "reader_finish verbosity i total_bytes s =
     (let q = (queue s)\<lparr>active_readers := active_readers (queue s) - 1\<rparr>;
          q' = (if active_readers q = 0 then q\<lparr>reading_done := True\<rparr> else q)
      in s\<lparr>printed := say verbosity 2 (ReaderCompleted i total_bytes) (printed s),
           queue := q',
           readers := (readers s)[i := RDone]\<rparr>)"

text \<open>The tail of a loop iteration after \<^verbatim>\<open>enqueue_buffer\<close> has returned (its result is
  not looked at).\<close>

definition reader_after_enqueue ::
  "int \<Rightarrow> nat \<Rightarrow> nat \<Rightarrow> nat \<Rightarrow> byte list \<Rightarrow> state \<Rightarrow> state" where
  "reader_after_enqueue verbosity i total_bytes block_index buf s =
     s\<lparr>printed := say verbosity 2
               (Enqueued i block_index (block_offset block_index) (length buf)) (printed s),
       readers := (readers s)[i := RClaim (size_t (total_bytes + length buf))]\<rparr>"

fun reader_step :: "int \<Rightarrow> env \<Rightarrow> nat \<Rightarrow> reader_pc \<Rightarrow> state \<Rightarrow> state option" where
  "reader_step v e i RNotCreated s = None"
| "reader_step v e i RStart s = Some (reader_open v e i s)"
| "reader_step v e i (RClaim tb) s =
     (case reserve_next_block (queue s) of
        (None, q) \<Rightarrow> Some (s\<lparr>readers := (readers s)[i := RFinish tb]\<rparr>)
      | (Some block_index, q) \<Rightarrow>
          Some (s\<lparr>queue := q, readers := (readers s)[i := RRead tb block_index]\<rparr>))"
| "reader_step v e i (RRead tb block_index) s =
     (case read_block e (file_size (queue s)) block_index of
        None \<Rightarrow> Some (s\<lparr>readers := (readers s)[i := RFinish tb]\<rparr>)
      | Some buf \<Rightarrow> Some (s\<lparr>readers := (readers s)[i := REnqWait tb block_index buf]\<rparr>))"
| "reader_step v e i (REnqWait tb block_index buf) s =
     (case sem_wait (empty_slots (queue s)) of
        None \<Rightarrow> None
      | Some n \<Rightarrow>
          Some (s\<lparr>queue := (queue s)\<lparr>empty_slots := n\<rparr>,
                  readers := (readers s)[i := REnqLocked tb block_index buf]\<rparr>))"
| "reader_step v e i (REnqLocked tb block_index buf) s =
     (let (ok, q) = enqueue_locked (node_malloc_ok e block_index) (data_malloc_ok e block_index)
                      buf (length buf) (queue s)
      in Some (s\<lparr>queue := q,
                 readers := (readers s)[i := (if ok then REnqPostFull tb block_index buf
                                              else REnqPostEmpty tb block_index buf)]\<rparr>))"
| "reader_step v e i (REnqPostFull tb block_index buf) s =
     Some (reader_after_enqueue v i tb block_index buf
             (s\<lparr>queue := (queue s)\<lparr>full_slots := sem_post (full_slots (queue s))\<rparr>\<rparr>))"
| "reader_step v e i (REnqPostEmpty tb block_index buf) s =
     Some (reader_after_enqueue v i tb block_index buf
             (s\<lparr>queue := (queue s)\<lparr>empty_slots := sem_post (empty_slots (queue s))\<rparr>\<rparr>))"
| "reader_step v e i (RFinish tb) s = Some (reader_finish v i tb s)"
| "reader_step v e i RDone s = None"

text \<open>\<^verbatim>\<open>process_buffers\<close>, with \<^verbatim>\<open>dequeue_buffer\<close> unfolded into its steps.\<close>

fun consumer_step :: "int \<Rightarrow> nat \<Rightarrow> consumer_pc \<Rightarrow> state \<Rightarrow> state option" where
  "consumer_step v i CNotCreated s = None"
| "consumer_step v i CCheck s =
     (let done = reading_done (queue s) \<and> active_readers (queue s) = 0 \<and> qcount (queue s) = 0
      in Some (s\<lparr>consumers := (consumers s)[i := (if done then CDone else CDeqWait)]\<rparr>))"
| "consumer_step v i CDeqWait s =
     (case sem_wait (full_slots (queue s)) of
        None \<Rightarrow> None
      | Some n \<Rightarrow>
          Some (s\<lparr>queue := (queue s)\<lparr>full_slots := n\<rparr>,
                  consumers := (consumers s)[i := CDeqLocked]\<rparr>))"
| "consumer_step v i CDeqLocked s =
     (case dequeue_locked (queue s) of
        (DeqNotYet, q) \<Rightarrow> Some (s\<lparr>queue := q, consumers := (consumers s)[i := CDeqRepost]\<rparr>)
      | (DeqDrained, q) \<Rightarrow> Some (s\<lparr>queue := q, consumers := (consumers s)[i := CCheck]\<rparr>)
      | (DeqNode node, q) \<Rightarrow>
          Some (s\<lparr>queue := q, consumers := (consumers s)[i := CDeqPostEmpty node]\<rparr>)
      | (DeqNull, q) \<Rightarrow> None)"
| "consumer_step v i CDeqRepost s =
     Some (s\<lparr>queue := (queue s)\<lparr>full_slots := sem_post (full_slots (queue s))\<rparr>,
             consumers := (consumers s)[i := CCheck]\<rparr>)"
| "consumer_step v i (CDeqPostEmpty node) s =
     Some (s\<lparr>queue := (queue s)\<lparr>empty_slots := sem_post (empty_slots (queue s))\<rparr>,
             consumers := (consumers s)[i := CProcess node]\<rparr>)"
| "consumer_step v i (CProcess node) s =
     Some ((process_buffer_data v node (length node) s)
             \<lparr>consumers := (consumers s)[i := CCheck]\<rparr>)"
| "consumer_step v i CDone s = None"

text \<open>\<^verbatim>\<open>async_sequential_read\<close> up to the creation of the threads.\<close>

definition async_setup :: "int \<Rightarrow> env \<Rightarrow> state \<Rightarrow> state" where
  "async_setup verbosity e s =
     (case get_file_size verbosity e (say verbosity 2 AsyncBanner (printed s)) of
        (None, out') \<Rightarrow> s\<lparr>printed := out', orch := ODone\<rparr>
      | (Some fsize, out') \<Rightarrow>
          s\<lparr>printed := out',
            queue := init_buffer_queue
                       \<lparr>file_size := fsize,
                        total_blocks := size_t (fsize + BLOCK_SIZE - 1) div BLOCK_SIZE,
                        next_block := 0\<rparr>,
            crc_tab := crc64_init (crc_tab s),
            global_hash_xor := 0,
            orch := OSpawnConsumer 0\<rparr>)"

text \<open>The end of \<^verbatim>\<open>async_sequential_read\<close> (``Output results'').
  \<^verbatim>\<open>cleanup_buffer_queue\<close> releases memory and destroys the mutex and the semaphores; it
  assigns no field of the queue.\<close>

definition async_report :: "int \<Rightarrow> state \<Rightarrow> state" where
  "async_report verbosity s =
     (let final_hash = global_hash_xor s
      in s\<lparr>printed := (say verbosity 2 (TotalFileSize (file_size (queue s)))
                     (say verbosity 1 (HashXor final_hash) (printed s))) @ [Elapsed],
           orch := ODone\<rparr>)"

text \<open>\<^verbatim>\<open>pthread_join\<close> returns once the thread has ended. For a reader whose creation
  failed the source joins \<^verbatim>\<open>reader_threads[i]\<close>, which was never written: undefined
  behaviour, and the orchestrator has no step there (as the consumer has none on the null
  \<^verbatim>\<open>head\<close>).\<close>

fun orch_step :: "int \<Rightarrow> env \<Rightarrow> orch_pc \<Rightarrow> state \<Rightarrow> state option" where
  "orch_step v e OStart s = Some (async_setup v e s)"
| "orch_step v e (OSpawnConsumer i) s =
     (if i < NUM_CONSUMERS
      then (if \<not> consumer_create_ok e i
            then Some (s\<lparr>printed := say v 2 (ConsumerCreateFailed i) (printed s), orch := ODone\<rparr>)
            else Some (s\<lparr>printed := say v 2 (ConsumerCreated i) (printed s),
                         consumers := (consumers s)[i := CCheck],
                         orch := OSpawnConsumer (i + 1)\<rparr>))
      else Some (s\<lparr>orch := OSetActive\<rparr>))"
| "orch_step v e OSetActive s =
     Some (s\<lparr>queue := (queue s)\<lparr>active_readers := int NUM_READERS\<rparr>, orch := OSpawnReader 0\<rparr>)"
| "orch_step v e (OSpawnReader i) s =
     (if i < NUM_READERS
      then (if \<not> reader_create_ok e i
            then Some (s\<lparr>printed := say v 2 (ReaderCreateFailed i) (printed s),
                         queue := (queue s)\<lparr>active_readers := active_readers (queue s) - 1\<rparr>,
                         orch := OSpawnReader (i + 1)\<rparr>)
            else Some (s\<lparr>printed := say v 2 (ReaderCreated i) (printed s),
                         readers := (readers s)[i := RStart],
                         orch := OSpawnReader (i + 1)\<rparr>))
      else Some (s\<lparr>orch := OJoinReader 0\<rparr>))"
| "orch_step v e (OJoinReader i) s =
     (if i < NUM_READERS
      then (if readers s ! i = RDone
            then Some (s\<lparr>orch := OJoinReader (i + 1)\<rparr>) else None)
      else Some (s\<lparr>printed := say v 2 AllReadersCompleted (printed s), orch := OWake 0\<rparr>))"
| "orch_step v e (OWake i) s =
     (if i < NUM_CONSUMERS
      then Some (s\<lparr>queue := (queue s)\<lparr>full_slots := sem_post (full_slots (queue s))\<rparr>,
                   orch := OWake (i + 1)\<rparr>)
      else Some (s\<lparr>orch := OJoinConsumer 0\<rparr>))"
| "orch_step v e (OJoinConsumer i) s =
     (if i < NUM_CONSUMERS
      then (if consumers s ! i = CDone then Some (s\<lparr>orch := OJoinConsumer (i + 1)\<rparr>) else None)
      else Some (s\<lparr>printed := say v 2 AllConsumersCompleted (printed s), orch := OReport\<rparr>))"
| "orch_step v e OReport s = Some (async_report v s)"
| "orch_step v e ODone s = None"

subsection \<open>Interleavings\<close>

datatype tid = Orchestrator | Reader nat | Consumer nat

text \<open>One atomic step of a thread: \<open>None\<close> when the thread is blocked, has ended or does not
  exist.\<close>

definition step :: "int \<Rightarrow> env \<Rightarrow> tid \<Rightarrow> state \<Rightarrow> state option" where
  "step v e t s =
     (case t of
        Orchestrator \<Rightarrow> orch_step v e (orch s) s
      | Reader i \<Rightarrow> if i < length (readers s) then reader_step v e i (readers s ! i) s else None
      | Consumer i \<Rightarrow>
          if i < length (consumers s) then consumer_step v i (consumers s ! i) s else None)"

text \<open>A schedule names the thread that moves next; a thread that cannot move is skipped.\<close>

definition sched_step :: "int \<Rightarrow> env \<Rightarrow> tid \<Rightarrow> state \<Rightarrow> state" where
  "sched_step v e t s = (case step v e t s of None \<Rightarrow> s | Some s' \<Rightarrow> s')"

definition run :: "int \<Rightarrow> env \<Rightarrow> tid list \<Rightarrow> state \<Rightarrow> state" where
  "run v e sched s = fold (sched_step v e) sched s"

text \<open>The results of the block claims made along a schedule, in the order in which they are
  made: a thread makes one when it is a reader at the head of its loop.\<close>

definition reservation :: "tid \<Rightarrow> state \<Rightarrow> nat option option" where
  "reservation t s =
     (case t of
        Reader i \<Rightarrow>
          (if i < length (readers s)
           then (case readers s ! i of
                   RClaim tb \<Rightarrow> Some (fst (reserve_next_block (queue s)))
                 | _ \<Rightarrow> None)
           else None)
      | _ \<Rightarrow> None)"

fun reservations :: "int \<Rightarrow> env \<Rightarrow> tid list \<Rightarrow> state \<Rightarrow> nat option list" where
  "reservations v e [] s = []"
| "reservations v e (t # ts) s =
     (case reservation t s of None \<Rightarrow> [] | Some r \<Rightarrow> [r])
     @ reservations v e ts (sched_step v e t s)"

subsection \<open>XOR of a list of digests\<close>

primrec xor_sum :: "u64 list \<Rightarrow> u64" where
  "xor_sum [] = 0"
| "xor_sum (x # xs) = x XOR xor_sum xs"

subsection \<open>Example environments\<close>

text \<open>A file of one block and ten bytes of which every read delivers three bytes; nothing else
  fails.\<close>

definition short_read_env :: env where
  "short_read_env =
     \<lparr>file_size_probe = Some 16777226, consumer_create_ok = (\<lambda>i. True),
      reader_create_ok = (\<lambda>i. True), reader_fopen_ok = (\<lambda>i. True),
      reader_malloc_ok = (\<lambda>i. True), fseek_ok = (\<lambda>off. True),
      fread_at = (\<lambda>off n. [1, 2, 3]), node_malloc_ok = (\<lambda>k. True),
      data_malloc_ok = (\<lambda>k. True)\<rparr>"

text \<open>A file with the given contents on which nothing fails: every read delivers all the
  bytes asked for that the file has.\<close>

definition file_env :: "byte list \<Rightarrow> env" where
  "file_env file =
     \<lparr>file_size_probe = Some (length file), consumer_create_ok = (\<lambda>i. True),
      reader_create_ok = (\<lambda>i. True), reader_fopen_ok = (\<lambda>i. True),
      reader_malloc_ok = (\<lambda>i. True), fseek_ok = (\<lambda>off. True),
      fread_at = (\<lambda>off n. take n (drop off file)), node_malloc_ok = (\<lambda>k. True),
      data_malloc_ok = (\<lambda>k. True)\<rparr>"

text \<open>The same file when no reader thread manages to open it.\<close>

definition unopenable_env :: "byte list \<Rightarrow> env" where
  "unopenable_env file = (file_env file)\<lparr>reader_fopen_ok := (\<lambda>i. False)\<rparr>"

text \<open>A schedule for a file of two blocks: the orchestrator creates all threads, reader 0
  reads and enqueues both blocks, the other readers find nothing left, the orchestrator joins
  the readers and wakes the consumers, consumer 0 processes both blocks, and everything
  ends.\<close>

definition two_block_schedule :: "tid list" where
  "two_block_schedule =
     [Orchestrator, Orchestrator, Orchestrator, Orchestrator, Orchestrator, Orchestrator,
      Orchestrator, Orchestrator, Orchestrator, Orchestrator, Orchestrator, Orchestrator,
      Reader 0, Reader 0, Reader 0, Reader 0, Reader 0, Reader 0, Reader 0, Reader 0,
      Reader 0, Reader 0, Reader 0, Reader 0, Reader 0,
      Reader 1, Reader 1, Reader 1, Reader 2, Reader 2, Reader 2, Reader 3, Reader 3, Reader 3,
      Orchestrator, Orchestrator, Orchestrator, Orchestrator, Orchestrator, Orchestrator,
      Orchestrator, Orchestrator, Orchestrator, Orchestrator,
      Consumer 0, Consumer 0, Consumer 0, Consumer 0, Consumer 0, Consumer 0, Consumer 0,
      Consumer 0, Consumer 0, Consumer 0, Consumer 0,
      Consumer 1, Consumer 2, Consumer 3,
      Orchestrator, Orchestrator, Orchestrator, Orchestrator, Orchestrator, Orchestrator]"

text \<open>Another schedule for a file of two blocks: reader 0 claims block 0 and reader 1 claims
  block 1, reader 1 enqueues first, consumer 2 removes block 1 and consumer 3 block 0, and
  consumer 3 accumulates before consumer 2.\<close>

definition crossed_schedule :: "tid list" where
  "crossed_schedule =
     [Orchestrator, Orchestrator, Orchestrator, Orchestrator, Orchestrator, Orchestrator,
      Orchestrator, Orchestrator, Orchestrator, Orchestrator, Orchestrator, Orchestrator,
      Reader 0, Reader 0, Reader 1, Reader 1, Reader 1, Reader 1, Reader 1, Reader 1, Reader 0,
      Reader 0, Reader 0, Reader 0, Consumer 2, Consumer 2, Consumer 2, Consumer 3, Consumer 3,
      Consumer 3, Consumer 3, Consumer 3, Consumer 2, Consumer 2, Reader 0, Reader 0, Reader 1,
      Reader 1, Reader 2, Reader 2, Reader 2, Reader 3, Reader 3, Reader 3, Orchestrator,
      Orchestrator, Orchestrator, Orchestrator, Orchestrator, Orchestrator, Orchestrator,
      Orchestrator, Orchestrator, Orchestrator, Consumer 0, Consumer 1, Consumer 2, Consumer 3,
      Orchestrator, Orchestrator, Orchestrator, Orchestrator, Orchestrator, Orchestrator]"

text \<open>A schedule for a file of two blocks in which consumer 1 reaches the wait on
  \<^verbatim>\<open>full_slots\<close> before any block is queued and never runs again: reader 0 reads both
  blocks, the readers end, and the orchestrator joins them and goes through its wake-up loop.\<close>

definition waiting_schedule :: "tid list" where
  "waiting_schedule =
     [Orchestrator, Orchestrator, Orchestrator, Orchestrator, Orchestrator, Orchestrator,
      Orchestrator, Orchestrator, Orchestrator, Orchestrator, Orchestrator, Orchestrator,
      Consumer 1, Reader 0, Reader 0, Reader 0, Reader 0, Reader 0, Reader 0, Reader 0,
      Reader 0, Reader 0, Reader 0, Reader 0, Reader 0, Reader 0, Reader 1, Reader 1, Reader 1,
      Reader 2, Reader 2, Reader 2, Reader 3, Reader 3, Reader 3, Orchestrator, Orchestrator,
      Orchestrator, Orchestrator, Orchestrator, Orchestrator, Orchestrator, Orchestrator,
      Orchestrator, Orchestrator]"

text \<open>The orchestrator creates all threads, then every reader takes its first step.\<close>

definition readers_open_schedule :: "tid list" where
  "readers_open_schedule =
     [Orchestrator, Orchestrator, Orchestrator, Orchestrator, Orchestrator, Orchestrator,
      Orchestrator, Orchestrator, Orchestrator, Orchestrator, Orchestrator, Orchestrator,
      Reader 0, Reader 1, Reader 2, Reader 3]"

subsection \<open>Blocks of a file and invariants of the pipeline\<close>

definition num_blocks :: "byte list \<Rightarrow> nat" where
  "num_blocks file = (length file + BLOCK_SIZE - 1) div BLOCK_SIZE"

definition file_block :: "byte list \<Rightarrow> nat \<Rightarrow> byte list" where
  "file_block file k = take BLOCK_SIZE (drop (k * BLOCK_SIZE) file)"

definition file_digest :: "byte list \<Rightarrow> u64" where
  "file_digest file = xor_sum (map (\<lambda>k. crc64_digest (file_block file k)) [0..<num_blocks file])"

text \<open>The digest a thread holds and has not yet handed on: a reader from the claim of a
  block until the block is in the queue, a consumer from the removal of a block until its
  digest is in the accumulator.\<close>

fun reader_owes :: "byte list \<Rightarrow> reader_pc \<Rightarrow> u64" where
  "reader_owes file (RRead tb k) = crc64_digest (file_block file k)"
| "reader_owes file (REnqWait tb k buf) = crc64_digest buf"
| "reader_owes file (REnqLocked tb k buf) = crc64_digest buf"
| "reader_owes file r = 0"

fun consumer_owes :: "consumer_pc \<Rightarrow> u64" where
  "consumer_owes (CDeqPostEmpty buf) = crc64_digest buf"
| "consumer_owes (CProcess buf) = crc64_digest buf"
| "consumer_owes c = 0"

definition balance :: "byte list \<Rightarrow> state \<Rightarrow> u64" where
  "balance file s =
     global_hash_xor s
     XOR xor_sum (map crc64_digest (nodes (queue s)))
     XOR xor_sum (map (reader_owes file) (readers s))
     XOR xor_sum (map consumer_owes (consumers s))
     XOR xor_sum (map (\<lambda>k. crc64_digest (file_block file k))
           [next_block (queue s)..<total_blocks (queue s)])"

fun reader_valid :: "BufferQueue \<Rightarrow> reader_pc \<Rightarrow> bool" where
  "reader_valid q (RRead tb k) = (k < next_block q)"
| "reader_valid q (REnqPostEmpty tb k buf) = False"
| "reader_valid q (RFinish tb) = (next_block q = total_blocks q)"
| "reader_valid q RDone = (next_block q = total_blocks q)"
| "reader_valid q r = True"

definition live_readers :: "reader_pc list \<Rightarrow> int" where
  "live_readers rs = sum_list (map (\<lambda>r. if r = RDone then 0 else 1) rs)"

fun before_active :: "orch_pc \<Rightarrow> bool" where
  "before_active (OSpawnConsumer i) = True"
| "before_active OSetActive = True"
| "before_active p = False"

fun orch_valid :: "orch_pc \<Rightarrow> state \<Rightarrow> bool" where
  "orch_valid (OSpawnConsumer i) s =
     (\<forall>j. i \<le> j \<and> j < NUM_CONSUMERS \<longrightarrow> consumers s ! j = CNotCreated)"
| "orch_valid (OSpawnReader i) s =
     (\<forall>j. i \<le> j \<and> j < NUM_READERS \<longrightarrow> readers s ! j = RNotCreated)"
| "orch_valid (OJoinConsumer k) s = (\<forall>j. j < k \<and> j < NUM_CONSUMERS \<longrightarrow> consumers s ! j = CDone)"
| "orch_valid OReport s = (\<forall>j. j < NUM_CONSUMERS \<longrightarrow> consumers s ! j = CDone)"
| "orch_valid ODone s = (\<forall>j. j < NUM_CONSUMERS \<longrightarrow> consumers s ! j = CDone)"
| "orch_valid p s = True"

definition inv_static :: "byte list \<Rightarrow> state \<Rightarrow> bool" where
  "inv_static file s \<longleftrightarrow>
     crc64_ok (crc_tab s) \<and> crc64_initialized (crc_tab s)
     \<and> length (readers s) = NUM_READERS \<and> length (consumers s) = NUM_CONSUMERS
     \<and> file_size (queue s) = length file
     \<and> total_blocks (queue s) = num_blocks file
     \<and> next_block (queue s) \<le> total_blocks (queue s)
     \<and> qcount (queue s) = int (length (nodes (queue s)))"

definition inv_balance :: "byte list \<Rightarrow> state \<Rightarrow> bool" where
  "inv_balance file s \<longleftrightarrow> balance file s = file_digest file"

definition inv_readers :: "state \<Rightarrow> bool" where
  "inv_readers s \<longleftrightarrow> (\<forall>r \<in> set (readers s). reader_valid (queue s) r)"

definition inv_active :: "state \<Rightarrow> bool" where
  "inv_active s \<longleftrightarrow>
     (if before_active (orch s)
      then active_readers (queue s) = 0 \<and> \<not> reading_done (queue s)
           \<and> (\<forall>r \<in> set (readers s). r = RNotCreated)
      else active_readers (queue s) = live_readers (readers s))
     \<and> (reading_done (queue s) \<longrightarrow> live_readers (readers s) = 0)"

definition inv_done :: "state \<Rightarrow> bool" where
  "inv_done s \<longleftrightarrow>
     (CDone \<in> set (consumers s) \<longrightarrow> reading_done (queue s) \<and> qcount (queue s) = 0)"

definition main_inv :: "byte list \<Rightarrow> state \<Rightarrow> bool" where
  "main_inv file s \<longleftrightarrow>
     orch s \<noteq> OStart \<and> inv_static file s \<and> inv_balance file s \<and> inv_readers s
     \<and> inv_active s \<and> inv_done s \<and> orch_valid (orch s) s"

definition pipeline_inv :: "crc64_state \<Rightarrow> byte list \<Rightarrow> state \<Rightarrow> bool" where
  "pipeline_inv c file s \<longleftrightarrow> s = async_start c \<or> main_inv file s"

text \<open>What holds throughout a run in which no reader gets its file open.\<close>

definition stuck_inv :: "state \<Rightarrow> bool" where
  "stuck_inv s \<longleftrightarrow>
     \<not> reading_done (queue s)
     \<and> (\<forall>r \<in> set (readers s). r = RNotCreated \<or> r = RStart \<or> r = RDone)
     \<and> CDone \<notin> set (consumers s)
     \<and> length (consumers s) = NUM_CONSUMERS
     \<and> orch s \<noteq> OReport \<and> orch s \<noteq> ODone
     \<and> (\<forall>k. orch s = OJoinConsumer k \<longrightarrow> k = 0)"

text \<open>Once \<^verbatim>\<open>async_sequential_read\<close> has ended, the digest of the file has been printed
  (at verbosity 1 and above).\<close>

definition report_inv :: "int \<Rightarrow> byte list \<Rightarrow> state \<Rightarrow> bool" where
  "report_inv v file s \<longleftrightarrow>
     (orch s = ODone \<and> 1 \<le> v \<longrightarrow> HashXor (file_digest file) \<in> set (printed s))"

subsection \<open>Tokens of the semaphore \<^verbatim>\<open>full_slots\<close>\<close>

text \<open>A consumer between \<^verbatim>\<open>sem_wait\<close> and the end of the critical section of
  \<^verbatim>\<open>dequeue_buffer\<close>, or about to post again, holds a token; a reader that has linked its
  node and not yet posted owes one; the orchestrator owes those of its wake-up loop that it has
  not posted. A consumer may still have to take a token unless it has ended or is about to see
  the queue drained.\<close>

fun holds_token :: "consumer_pc \<Rightarrow> int" where
  "holds_token CDeqLocked = 1"
| "holds_token CDeqRepost = 1"
| "holds_token c = 0"

definition needs_token :: "BufferQueue \<Rightarrow> consumer_pc \<Rightarrow> int" where
  "needs_token q c =
     (if c = CDone \<or> (c = CCheck \<and> reading_done q \<and> active_readers q = 0 \<and> qcount q = 0)
      then 0 else 1)"

fun unposted :: "reader_pc \<Rightarrow> int" where
  "unposted (REnqPostFull tb k buf) = 1"
| "unposted r = 0"

fun wake_left :: "orch_pc \<Rightarrow> int" where
  "wake_left (OWake i) = int (NUM_CONSUMERS - i)"
| "wake_left (OJoinConsumer k) = 0"
| "wake_left OReport = 0"
| "wake_left ODone = 0"
| "wake_left p = int NUM_CONSUMERS"

definition token_inv :: "state \<Rightarrow> bool" where
  "token_inv s \<longleftrightarrow>
     qcount (queue s) + sum_list (map (needs_token (queue s)) (consumers s))
       \<le> int (full_slots (queue s)) + sum_list (map holds_token (consumers s))
          + sum_list (map unposted (readers s)) + wake_left (orch s)"

fun joined :: "orch_pc \<Rightarrow> state \<Rightarrow> bool" where
  "joined (OJoinReader k) s = (\<forall>j. j < k \<and> j < NUM_READERS \<longrightarrow> readers s ! j = RDone)"
| "joined (OWake i) s = (\<forall>r \<in> set (readers s). r = RDone)"
| "joined (OJoinConsumer k) s = (\<forall>r \<in> set (readers s). r = RDone)"
| "joined OReport s = (\<forall>r \<in> set (readers s). r = RDone)"
| "joined ODone s = (\<forall>r \<in> set (readers s). r = RDone)"
| "joined p s = True"

definition wake_inv :: "state \<Rightarrow> bool" where
  "wake_inv s \<longleftrightarrow>
     token_inv s \<and> joined (orch s) s
     \<and> (\<not> before_active (orch s) \<and> live_readers (readers s) = 0
          \<longrightarrow> reading_done (queue s))"

section \<open>Properties\<close>

lemma and_one_iff_bit0: "(c AND 1 \<noteq> 0) = bit c 0" for c :: u64
  by (simp add: and_one_eq mod_2_eq_odd bit_0)

lemma crc64_init_bits_funpow:
  "j \<le> 8 \<Longrightarrow> crc64_init_bits poly crc j = (crc64_shift_xor poly ^^ (8 - j)) crc"
proof (induction poly crc j rule: crc64_init_bits.induct)
  case (1 poly crc j)
  show ?case
  proof (cases "j < 8")
    case True
    then have e: "8 - j = Suc (8 - (j + 1))" by simp
    from True 1 show ?thesis
      apply (subst crc64_init_bits.simps)
      apply (simp only: e funpow_Suc_right o_apply)
      apply (simp add: crc64_shift_xor_def and_one_iff_bit0)
      done
  next
    case False
    with 1 show ?thesis by (subst crc64_init_bits.simps) simp
  qed
qed

lemma crc64_init_table_eq:
  "length t = 256 \<Longrightarrow> i \<le> 256 \<Longrightarrow>
   crc64_init_table poly t i =
     take i t @ map (\<lambda>k. (crc64_shift_xor poly ^^ 8) (of_nat k)) [i..<256]"
proof (induction poly t i rule: crc64_init_table.induct)
  case (1 poly t i)
  show ?case
  proof (cases "i < 256")
    case True
    have u: "[i..<256] = i # [i + 1..<256]" using True by (simp add: upt_conv_Cons)
    have tk: "take (Suc i) (t[i := v]) = take i t @ [v]" for v
      using True 1(2) by (simp add: take_Suc_conv_app_nth)
    from True 1 show ?thesis
      apply (subst crc64_init_table.simps)
      apply (simp only: u if_True)
      apply (simp add: tk crc64_init_bits_funpow del: upt_Suc)
      done
  next
    case False
    with 1 show ?thesis by (subst crc64_init_table.simps) simp
  qed
qed

lemma crc64_init_table_spec:
  "length t = 256 \<Longrightarrow> crc64_init_table CRC64_POLY_ECMA t 0 = crc64_table_spec"
  by (simp add: crc64_init_table_eq crc64_table_spec_def CRC64_POLY_ECMA_def)

lemma crc64_init_table_of_ok: "crc64_ok st \<Longrightarrow> crc64_table (crc64_init st) = crc64_table_spec"
  by (simp add: crc64_ok_def crc64_init_def crc64_init_table_spec)

lemma crc64_update_loop_fold:
  "i \<le> len \<Longrightarrow> len \<le> length data \<Longrightarrow>
   crc64_update_loop table crc data len i =
     fold (crc64_byte_step table) (take (len - i) (drop i data)) crc"
proof (induction table crc data len i rule: crc64_update_loop.induct)
  case (1 table crc data len i)
  show ?case
  proof (cases "i < len")
    case True
    then have e: "len - i = Suc (len - (i + 1))" by simp
    have d: "drop i data = data ! i # drop (i + 1) data"
      using True 1(3) by (simp add: Cons_nth_drop_Suc)
    from True 1 show ?thesis
      apply (subst crc64_update_loop.simps)
      apply (simp only: e d take_Suc_Cons fold_simps if_True)
      apply (simp add: crc64_byte_step_def)
      done
  next
    case False
    with 1 show ?thesis by (subst crc64_update_loop.simps) simp
  qed
qed


lemma length_crc64_table_spec: "length crc64_table_spec = 256"
  by (simp add: crc64_table_spec_def del: upt_Suc)

lemma crc64_ok_start: "crc64_ok crc64_start"
  by (simp add: crc64_ok_def crc64_start_def)

lemma crc64_ok_table: "crc64_ok st \<Longrightarrow> crc64_initialized st \<Longrightarrow> crc64_table st = crc64_table_spec"
  by (simp add: crc64_ok_def crc64_init_table_spec)

lemma crc64_init_ok: "crc64_ok st \<Longrightarrow> crc64_ok (crc64_init st)"
  by (simp add: crc64_ok_def crc64_init_def crc64_init_table_spec length_crc64_table_spec)

lemma crc64_init_initialized: "crc64_initialized (crc64_init st)"
  by (simp add: crc64_init_def)

lemma crc64_init_idem: "crc64_init (crc64_init st) = crc64_init st"
  by (simp add: crc64_init_def)

lemma crc64_init_fixed: "crc64_initialized st \<Longrightarrow> crc64_init st = st"
  by (simp add: crc64_init_def)

lemma crc64_compute_digest:
  "crc64_ok st \<Longrightarrow> len \<le> length data \<Longrightarrow>
   fst (crc64_compute st data len) = crc64_digest (take len data)"
  by (simp add: crc64_compute_def crc64_update_def Let_def crc64_update_loop_fold
      crc64_init_table_of_ok crc64_digest_def)

lemma crc64_compute_state: "snd (crc64_compute st data len) = crc64_init st"
  by (simp add: crc64_compute_def crc64_update_def Let_def)

text \<open>C6: \<^verbatim>\<open>crc64_compute(data, len)\<close> is the fold, from zero and in order, of the bytes
  through \<open>crc = table[(crc XOR byte) AND 0xFF] XOR (crc >> 8)\<close>, where the table is the one
  built from the polynomial \<open>0x42F0E1EBA9EA3693\<close> by eight shift/XOR iterations per entry.
  The result does not depend on the state of the table variables the call starts from, and is
  zero for \<open>len = 0\<close>.\<close>

theorem crc64_compute_is_table_fold:
  assumes "crc64_ok st" and "len \<le> length data"
  shows "fst (crc64_compute st data len)
           = fold (crc64_byte_step crc64_table_spec) (take len data) 0
       \<and> crc64_table (snd (crc64_compute st data len)) = crc64_table_spec
       \<and> crc64_table_spec
           = map (\<lambda>i. (crc64_shift_xor CRC64_POLY_ECMA ^^ 8) (of_nat i)) [0..<256]
       \<and> crc64_ok (snd (crc64_compute st data len))
       \<and> fst (crc64_compute st data 0) = 0"
proof -
  have a: "fst (crc64_compute st data len)
             = fold (crc64_byte_step crc64_table_spec) (take len data) 0"
    using assms by (simp add: crc64_compute_digest crc64_digest_def)
  have b: "crc64_table (snd (crc64_compute st data len)) = crc64_table_spec"
    using assms(1) by (simp add: crc64_compute_state crc64_init_table_of_ok)
  have c: "crc64_table_spec
             = map (\<lambda>i. (crc64_shift_xor CRC64_POLY_ECMA ^^ 8) (of_nat i)) [0..<256]"
    by (simp only: crc64_table_spec_def CRC64_POLY_ECMA_def)
  have d: "crc64_ok (snd (crc64_compute st data len))"
    using assms(1) by (simp add: crc64_compute_state crc64_init_ok)
  have e: "fst (crc64_compute st data 0) = 0"
    using assms(1) crc64_compute_digest [of st 0 data] by (simp add: crc64_digest_def)
  from a b c d e show ?thesis by blast
qed

theorem crc64_compute_is_table_fold_witness:
  "crc64_ok crc64_start \<and> (2::nat) \<le> length [0x31, 0x32, 0x33 :: byte]
   \<and> fst (crc64_compute crc64_start [0x31, 0x32, 0x33] 2)
        = fold (crc64_byte_step crc64_table_spec) [0x31, 0x32] 0
   \<and> fst (crc64_compute crc64_start [0x31, 0x32, 0x33] 0) = 0"
proof -
  have h1: "crc64_ok crc64_start" by (rule crc64_ok_start)
  have h2: "(2::nat) \<le> length [0x31, 0x32, 0x33 :: byte]" by simp
  have t: "take 2 [0x31, 0x32, 0x33 :: byte] = [0x31, 0x32]" by simp
  show ?thesis
    using crc64_compute_is_table_fold [OF h1 h2] h1 by (simp only: t h2 simp_thms)
qed

subsection \<open>The accumulator\<close>

lemma xor_sum_append: "xor_sum (xs @ ys) = xor_sum xs XOR xor_sum ys"
  by (induction xs) (simp_all add: ac_simps)

lemma xor_sum_fold: "fold (XOR) xs a = a XOR xor_sum xs" for a :: u64
  by (induction xs arbitrary: a) (simp_all add: ac_simps)

lemma xor_sum_mset: "mset xs = mset ys \<Longrightarrow> xor_sum xs = xor_sum ys"
proof -
  assume m: "mset xs = mset ys"
  have "fold (XOR) xs (0::u64) = fold (XOR) ys 0"
    by (rule fun_cong [OF fold_multiset_equiv [OF _ m]]) (simp add: fun_eq_iff ac_simps)
  then show ?thesis by (simp add: xor_sum_fold)
qed

lemma process_buffer_data_hash:
  "crc64_ok (crc_tab s) \<Longrightarrow>
   global_hash_xor (process_buffer_data v b (length b) s) = global_hash_xor s XOR crc64_digest b"
  using crc64_compute_digest [of "crc_tab s" "length b" b]
  by (simp add: process_buffer_data_def xor_accumulate_def split_beta)

lemma process_buffer_data_crc64:
  "crc_tab (process_buffer_data v b sz s) = crc64_init (crc_tab s)"
  by (simp add: process_buffer_data_def split_beta crc64_compute_state)

lemma fold_process_buffer_data:
  "crc64_ok (crc_tab s) \<Longrightarrow>
   global_hash_xor (fold (\<lambda>b. process_buffer_data v b (length b)) bs s)
     = global_hash_xor s XOR xor_sum (map crc64_digest bs)
   \<and> crc64_ok (crc_tab (fold (\<lambda>b. process_buffer_data v b (length b)) bs s))"
proof (induction bs arbitrary: s)
  case Nil
  then show ?case by simp
next
  case (Cons b bs)
  have ok: "crc64_ok (crc_tab (process_buffer_data v b (length b) s))"
    using Cons.prems by (simp add: process_buffer_data_crc64 crc64_init_ok)
  show ?case
    using Cons.IH [OF ok] Cons.prems
    by (simp add: process_buffer_data_hash ac_simps)
qed

lemma process_block_xor_eq:
  "crc64_ok st \<Longrightarrow>
   process_block_xor st b (length b) h = (h XOR crc64_digest b, crc64_init st)"
  using crc64_compute_digest [of st "length b" b] crc64_compute_state [of st b "length b"]
  by (simp add: process_block_xor_def xor_accumulate_def split_beta prod_eq_iff)

lemma fold_process_block_xor:
  "crc64_ok st \<Longrightarrow>
   fst (fold (\<lambda>b (h, c). process_block_xor c b (length b) h) bs (h0, st))
     = h0 XOR xor_sum (map crc64_digest bs)"
proof (induction bs arbitrary: h0 st)
  case Nil
  then show ?case by simp
next
  case (Cons b bs)
  show ?case
    using Cons.IH [OF crc64_init_ok [OF Cons.prems]] Cons.prems
    by (simp add: process_block_xor_eq ac_simps)
qed

text \<open>C1: folding the per-block CRC64 digests of a collection of blocks into the accumulator
  gives the same digest for every order of the blocks, on the shared accumulator of the
  pipeline (\<^verbatim>\<open>process_buffer_data\<close>) as on a local one (\<^verbatim>\<open>process_block_xor\<close>, from 0);
  the combining operator is commutative, associative and self-inverse, with identity 0.\<close>

theorem xor_fold_order_independent:
  assumes "mset bs = mset bs'" and "crc64_ok (crc_tab s)" and "crc64_ok st"
  shows "global_hash_xor (fold (\<lambda>b. process_buffer_data v b (length b)) bs s)
           = global_hash_xor (fold (\<lambda>b. process_buffer_data v b (length b)) bs' s)
       \<and> fst (fold (\<lambda>b (h, c). process_block_xor c b (length b) h) bs (0, st))
           = fst (fold (\<lambda>b (h, c). process_block_xor c b (length b) h) bs' (0, st))
       \<and> xor_accumulate a b = xor_accumulate b a
       \<and> xor_accumulate (xor_accumulate a b) c = xor_accumulate a (xor_accumulate b c)
       \<and> xor_accumulate a a = 0
       \<and> xor_accumulate 0 a = a"
proof -
  have m: "mset (map crc64_digest bs) = mset (map crc64_digest bs')"
    using assms(1) by (metis mset_map)
  have x: "xor_sum (map crc64_digest bs) = xor_sum (map crc64_digest bs')"
    by (rule xor_sum_mset [OF m])
  have p: "global_hash_xor (fold (\<lambda>b. process_buffer_data v b (length b)) bs s)
             = global_hash_xor (fold (\<lambda>b. process_buffer_data v b (length b)) bs' s)"
    using fold_process_buffer_data [OF assms(2), of v bs]
      fold_process_buffer_data [OF assms(2), of v bs'] x by simp
  have q: "fst (fold (\<lambda>b (h, c). process_block_xor c b (length b) h) bs (0, st))
             = fst (fold (\<lambda>b (h, c). process_block_xor c b (length b) h) bs' (0, st))"
    using fold_process_block_xor [OF assms(3), of bs 0]
      fold_process_block_xor [OF assms(3), of bs' 0] x by simp
  have l: "xor_accumulate a b = xor_accumulate b a
       \<and> xor_accumulate (xor_accumulate a b) c = xor_accumulate a (xor_accumulate b c)
       \<and> xor_accumulate a a = 0
       \<and> xor_accumulate 0 a = a"
    by (simp add: xor_accumulate_def ac_simps)
  from p q l show ?thesis by blast
qed

theorem xor_fold_order_independent_witness:
  "mset [[1], [2, 3 :: byte]] = mset [[2, 3], [1]]
   \<and> crc64_ok (crc_tab (async_start crc64_start)) \<and> crc64_ok crc64_start
   \<and> global_hash_xor (fold (\<lambda>b. process_buffer_data 1 b (length b)) [[1], [2, 3]]
        (async_start crc64_start))
       = global_hash_xor (fold (\<lambda>b. process_buffer_data 1 b (length b)) [[2, 3], [1]]
        (async_start crc64_start))"
proof -
  have h1: "mset [[1], [2, 3 :: byte]] = mset [[2, 3], [1]]" by simp
  have h2: "crc64_ok (crc_tab (async_start crc64_start))"
    by (simp add: async_start_def crc64_ok_start)
  have h3: "crc64_ok crc64_start" by (rule crc64_ok_start)
  from xor_fold_order_independent [OF h1 h2 h3, of 1] h1 h2 h3 show ?thesis by blast
qed

subsection \<open>The queue operations\<close>

text \<open>C2, as stated, fails: on a drained queue (\<^verbatim>\<open>reading_done\<close> set, no active reader, no
  block) holding one token, \<^verbatim>\<open>dequeue_buffer\<close> returns 0 and leaves \<^verbatim>\<open>full_slots\<close> at 0;
  the condition is not signalled again.\<close>

theorem dequeue_buffer_drained_counterexample:
  "reading_done (init_buffer_queue\<lparr>reading_done := True, full_slots := 1\<rparr>)
   \<and> active_readers (init_buffer_queue\<lparr>reading_done := True, full_slots := 1\<rparr>) = 0
   \<and> qcount (init_buffer_queue\<lparr>reading_done := True, full_slots := 1\<rparr>) = 0
   \<and> dequeue_buffer (init_buffer_queue\<lparr>reading_done := True, full_slots := 1\<rparr>)
       = Some (0, None, init_buffer_queue\<lparr>reading_done := True, full_slots := 0\<rparr>)"
  by (simp add: dequeue_buffer_def dequeue_locked_def sem_wait_def init_buffer_queue_def)

text \<open>C9: when the allocation of the node or of its buffer fails, \<^verbatim>\<open>enqueue_buffer\<close>
  returns 0 and the queue is exactly as before the call: the list from head to tail and the
  count are untouched by the critical section, and the slot taken from \<^verbatim>\<open>empty_slots\<close>
  is posted back.\<close>

theorem enqueue_buffer_alloc_failure:
  assumes "\<not> node_ok \<or> \<not> data_ok" and "0 < empty_slots q"
  shows "enqueue_buffer node_ok data_ok q data sz = Some (0, q)
       \<and> sem_wait (empty_slots q) = Some (empty_slots q - 1)
       \<and> enqueue_locked node_ok data_ok data sz (q\<lparr>empty_slots := empty_slots q - 1\<rparr>)
           = (False, q\<lparr>empty_slots := empty_slots q - 1\<rparr>)
       \<and> sem_post (empty_slots q - 1) = empty_slots q"
  using assms by (auto simp: enqueue_buffer_def enqueue_locked_def sem_wait_def sem_post_def)

theorem enqueue_buffer_alloc_failure_witness:
  "0 < empty_slots init_buffer_queue
   \<and> enqueue_buffer True False init_buffer_queue [1, 2] 2 = Some (0, init_buffer_queue)
   \<and> enqueue_buffer False True init_buffer_queue [1, 2] 2 = Some (0, init_buffer_queue)"
  using enqueue_buffer_alloc_failure [of True False init_buffer_queue "[1, 2]" 2]
    enqueue_buffer_alloc_failure [of False True init_buffer_queue "[1, 2]" 2]
  by (simp add: init_buffer_queue_def MAX_QUEUE_SIZE_def)

subsection \<open>Short reads\<close>

text \<open>C4, as the code has it: after a claim the reader leaves its loop only when the seek
  fails or the read delivers no byte; a read that delivers at least one byte, even fewer than
  asked for, is enqueued, and after the enqueue the reader is back at the head of its loop to
  claim the next index.\<close>

theorem reader_short_read:
  "reader_step v e i (RRead tb k) s =
     Some (s\<lparr>readers := (readers s)
        [i := (if \<not> fseek_ok e (block_offset k)
                  \<or> take (block_bytes_to_read (file_size (queue s)) k)
                       (fread_at e (block_offset k) (block_bytes_to_read (file_size (queue s)) k))
                     = []
               then RFinish tb
               else REnqWait tb k
                      (take (block_bytes_to_read (file_size (queue s)) k)
                         (fread_at e (block_offset k)
                            (block_bytes_to_read (file_size (queue s)) k))))]\<rparr>)
   \<and> readers (the (reader_step v e i (REnqPostFull tb k buf) s))
       = (readers s)[i := RClaim (size_t (tb + length buf))]
   \<and> readers (the (reader_step v e i (REnqPostEmpty tb k buf) s))
       = (readers s)[i := RClaim (size_t (tb + length buf))]"
  by (simp add: read_block_def Let_def reader_after_enqueue_def)

subsection \<open>Auxiliary facts for the invariants\<close>

lemma xor_cancel_left [simp]: "a XOR (a XOR b) = b" for a b :: u64
  by (simp add: xor.assoc [symmetric])

lemma xor_sum_update:
  "i < length xs \<Longrightarrow> xor_sum (map f (xs[i := y])) = xor_sum (map f xs) XOR f (xs ! i) XOR f y"
proof (induction xs arbitrary: i)
  case Nil
  then show ?case by simp
next
  case (Cons x xs)
  then show ?case by (cases i) (simp_all add: ac_simps)
qed

lemma xor_sum_zero: "(\<And>x. x \<in> set xs \<Longrightarrow> f x = 0) \<Longrightarrow> xor_sum (map f xs) = 0"
  by (induction xs) simp_all

lemma xor_sum_upt_first:
  "n < m \<Longrightarrow> xor_sum (map f [n..<m]) = f n XOR xor_sum (map f [Suc n..<m])"
  by (simp add: upt_conv_Cons)

lemma live_readers_update:
  "i < length rs \<Longrightarrow>
   live_readers (rs[i := r]) =
     live_readers rs - (if rs ! i = RDone then 0 else 1) + (if r = RDone then 0 else 1)"
  unfolding live_readers_def
proof (induction rs arbitrary: i)
  case Nil
  then show ?case by simp
next
  case (Cons x xs)
  then show ?case by (cases i) simp_all
qed

lemma live_readers_nonneg: "0 \<le> live_readers rs"
  unfolding live_readers_def by (induction rs) simp_all

lemma live_readers_zero: "live_readers rs = 0 \<Longrightarrow> r \<in> set rs \<Longrightarrow> r = RDone"
  unfolding live_readers_def
proof (induction rs)
  case Nil
  then show ?case by simp
next
  case (Cons x xs)
  have n: "0 \<le> sum_list (map (\<lambda>r. if r = RDone then 0 else (1::int)) xs)"
    using live_readers_nonneg [of xs] by (simp add: live_readers_def)
  from Cons.prems n have x: "x = RDone"
    by (simp split: if_splits)
  with Cons show ?case by auto
qed

lemma live_readers_replicate: "live_readers (replicate n RNotCreated) = int n"
  unfolding live_readers_def by (induction n) simp_all

lemma size_t_small: "n < 2 ^ 64 \<Longrightarrow> size_t n = n"
  by (simp add: size_t_def)

lemma num_blocks_bound:
  "k < num_blocks file \<Longrightarrow> k * BLOCK_SIZE < length file"
proof -
  assume k: "k < num_blocks file"
  have b: "0 < BLOCK_SIZE" by (simp add: BLOCK_SIZE_def)
  from k have "Suc k \<le> (length file + BLOCK_SIZE - 1) div BLOCK_SIZE"
    by (simp add: num_blocks_def)
  then have "Suc k * BLOCK_SIZE \<le> length file + BLOCK_SIZE - 1"
    using b by (simp add: less_eq_div_iff_mult_less_eq)
  then show ?thesis using b by simp
qed

lemma read_block_file_env:
  assumes "k < num_blocks file" and "length file + BLOCK_SIZE \<le> 2 ^ 64"
  shows "read_block (file_env file) (length file) k = Some (file_block file k)"
proof -
  have b: "0 < BLOCK_SIZE" by (simp add: BLOCK_SIZE_def)
  have lt: "k * BLOCK_SIZE < length file" by (rule num_blocks_bound [OF assms(1)])
  have off: "block_offset k = k * BLOCK_SIZE"
    using lt assms(2) b by (simp add: block_offset_def size_t_small)
  have s: "size_t (k * BLOCK_SIZE + BLOCK_SIZE) = k * BLOCK_SIZE + BLOCK_SIZE"
    using lt assms(2) by (simp add: size_t_small)
  have sub: "size_t_sub (length file) (k * BLOCK_SIZE) = length file - k * BLOCK_SIZE"
  proof -
    have m: "k * BLOCK_SIZE mod 2 ^ 64 = k * BLOCK_SIZE"
      using lt assms(2) by simp
    have e: "length file + 2 ^ 64 - k * BLOCK_SIZE = (length file - k * BLOCK_SIZE) + 2 ^ 64"
      using lt by simp
    have l: "length file - k * BLOCK_SIZE < 2 ^ 64"
      using assms(2) b by arith
    show ?thesis
      unfolding size_t_sub_def m e using l by simp
  qed
  have n: "take (block_bytes_to_read (length file) k) (drop (k * BLOCK_SIZE) file)
             = file_block file k"
    by (simp add: block_bytes_to_read_def off s sub file_block_def Let_def)
  have ne: "file_block file k \<noteq> []"
    using lt b by (simp add: file_block_def)
  have fr: "fread_at (file_env file) (block_offset k) m = take m (drop (k * BLOCK_SIZE) file)"
    for m by (simp add: file_env_def off)
  have t: "take (block_bytes_to_read (length file) k)
             (fread_at (file_env file) (block_offset k) (block_bytes_to_read (length file) k))
             = file_block file k"
    unfolding fr take_take min.idem by (rule n)
  have fs: "fseek_ok (file_env file) (block_offset k)"
    by (simp add: file_env_def)
  show ?thesis
    unfolding read_block_def Let_def t using fs ne by simp
qed

subsection \<open>Steps of a reader preserve the invariants\<close>

lemma num_blocks_less: "length file + BLOCK_SIZE \<le> 2 ^ 64 \<Longrightarrow> num_blocks file < 2 ^ 64"
proof -
  assume a: "length file + BLOCK_SIZE \<le> 2 ^ 64"
  have "num_blocks file \<le> length file + BLOCK_SIZE - 1"
    unfolding num_blocks_def by (rule div_le_dividend)
  also have "\<dots> < 2 ^ 64" using a by (simp add: BLOCK_SIZE_def)
  finally show ?thesis .
qed

lemma reserve_next_block_file:
  assumes "inv_static file s" and "length file + BLOCK_SIZE \<le> 2 ^ 64"
  shows "reserve_next_block (queue s) =
           (if next_block (queue s) = total_blocks (queue s) then (None, queue s)
            else (Some (next_block (queue s)),
                  (queue s)\<lparr>next_block := Suc (next_block (queue s))\<rparr>))"
proof -
  have le: "next_block (queue s) \<le> total_blocks (queue s)"
    and t: "total_blocks (queue s) < 2 ^ 64"
    using assms num_blocks_less [OF assms(2)] by (simp_all add: inv_static_def)
  show ?thesis
  proof (cases "next_block (queue s) = total_blocks (queue s)")
    case True
    then show ?thesis by (simp add: reserve_next_block_def)
  next
    case False
    with le t have "next_block (queue s) + 1 < 2 ^ 64" by simp
    with False le show ?thesis
      by (simp add: reserve_next_block_def size_t_small)
  qed
qed

lemma reader_running_active:
  assumes "inv_active s" and "i < length (readers s)" and "readers s ! i \<noteq> RNotCreated"
  shows "active_readers (queue s) = live_readers (readers s)"
proof -
  have "\<not> before_active (orch s)"
  proof
    assume "before_active (orch s)"
    with assms(1) have "\<forall>r \<in> set (readers s). r = RNotCreated"
      by (simp add: inv_active_def)
    with assms(2,3) show False by (meson nth_mem)
  qed
  with assms(1) show ?thesis by (simp add: inv_active_def)
qed

lemma reader_step_inv_static:
  assumes "main_inv file s" and "i < length (readers s)"
    and "reader_step v (file_env file) i (readers s ! i) s = Some s'"
    and "length file + BLOCK_SIZE \<le> 2 ^ 64"
  shows "inv_static file s'"
proof -
  have st: "inv_static file s" using assms(1) by (simp add: main_inv_def)
  note r = reserve_next_block_file [OF st assms(4)]
  show ?thesis
    using assms(3) st
    by (cases "readers s ! i")
      (auto simp: r inv_static_def reader_open_def reader_finish_def reader_after_enqueue_def
        enqueue_locked_def sem_wait_def Let_def file_env_def
        split: if_splits option.splits)
qed

lemma reader_valid_nth:
  "inv_readers s \<Longrightarrow> i < length (readers s) \<Longrightarrow> reader_valid (queue s) (readers s ! i)"
  by (simp add: inv_readers_def)

lemma reader_step_inv_balance:
  assumes "main_inv file s" and "i < length (readers s)"
    and "reader_step v (file_env file) i (readers s ! i) s = Some s'"
    and "length file + BLOCK_SIZE \<le> 2 ^ 64"
  shows "inv_balance file s'"
proof -
  have st: "inv_static file s" and b: "balance file s = file_digest file"
    and rv: "reader_valid (queue s) (readers s ! i)"
    using assms(1,2) by (simp_all add: main_inv_def inv_balance_def reader_valid_nth)
  note r = reserve_next_block_file [OF st assms(4)]
  have le: "next_block (queue s) \<le> total_blocks (queue s)"
    and tb: "total_blocks (queue s) = num_blocks file"
    and fs: "file_size (queue s) = length file"
    using st by (simp_all add: inv_static_def)
  show ?thesis
  proof (cases "readers s ! i")
    case (RClaim tb)
    show ?thesis
    proof (cases "next_block (queue s) = total_blocks (queue s)")
      case True
      with RClaim assms(2,3) b show ?thesis
        by (auto simp: r inv_balance_def balance_def xor_sum_update)
    next
      case False
      with le have lt: "next_block (queue s) < total_blocks (queue s)" by simp
      from RClaim False assms(2,3) b show ?thesis
        by (auto simp: r inv_balance_def balance_def xor_sum_update
            xor_sum_upt_first [OF lt] ac_simps)
    qed
  next
    case (RRead tb k)
    with rv le tb have k: "k < num_blocks file" by simp
    from RRead assms(2,3) b show ?thesis
      by (auto simp: fs read_block_file_env [OF k assms(4)] inv_balance_def balance_def
          xor_sum_update)
  next
    case (REnqLocked tb k buf)
    with assms(2,3) b show ?thesis
      by (auto simp: inv_balance_def balance_def xor_sum_update enqueue_locked_def
          file_env_def xor_sum_append ac_simps)
  qed (use assms(2,3) b rv in \<open>auto simp: inv_balance_def balance_def xor_sum_update
        reader_open_def reader_finish_def reader_after_enqueue_def sem_wait_def Let_def
        file_env_def split: if_splits\<close>)
qed

lemma reader_step_enabled:
  "reader_step v e i r s = Some s' \<Longrightarrow> r \<noteq> RNotCreated \<and> r \<noteq> RDone"
  by (cases r) simp_all

lemma reader_step_orch: "reader_step v e i r s = Some s' \<Longrightarrow> orch s' = orch s"
  by (cases r)
    (auto simp: reader_open_def reader_finish_def reader_after_enqueue_def Let_def
      split: if_splits option.splits prod.splits)

lemma reader_step_consumers: "reader_step v e i r s = Some s' \<Longrightarrow> consumers s' = consumers s"
  by (cases r)
    (auto simp: reader_open_def reader_finish_def reader_after_enqueue_def Let_def
      split: if_splits option.splits prod.splits)

lemma reader_valid_same_blocks:
  "next_block q' = next_block q \<Longrightarrow> total_blocks q' = total_blocks q \<Longrightarrow>
   reader_valid q' r = reader_valid q r"
  by (cases r) simp_all

lemma reader_valid_claim:
  "reader_valid q r \<Longrightarrow> next_block q \<noteq> total_blocks q \<Longrightarrow>
   reader_valid (q\<lparr>next_block := Suc (next_block q)\<rparr>) r"
  by (cases r) simp_all

lemma in_set_updateD: "x \<in> set (xs[i := y]) \<Longrightarrow> x = y \<or> x \<in> set xs"
  using set_update_subset_insert [of xs i y] by auto

lemma reader_valid_update [simp]:
  "reader_valid (q\<lparr>nodes := a\<rparr>) r = reader_valid q r"
  "reader_valid (q\<lparr>qcount := b\<rparr>) r = reader_valid q r"
  "reader_valid (q\<lparr>empty_slots := c\<rparr>) r = reader_valid q r"
  "reader_valid (q\<lparr>full_slots := d\<rparr>) r = reader_valid q r"
  "reader_valid (q\<lparr>reading_done := f\<rparr>) r = reader_valid q r"
  "reader_valid (q\<lparr>active_readers := g\<rparr>) r = reader_valid q r"
  by (cases r; simp)+

lemma reader_step_inv_readers:
  assumes "main_inv file s" and "i < length (readers s)"
    and "reader_step v (file_env file) i (readers s ! i) s = Some s'"
    and "length file + BLOCK_SIZE \<le> 2 ^ 64"
  shows "inv_readers s'"
proof -
  have st: "inv_static file s" and ir: "inv_readers s"
    and rv: "reader_valid (queue s) (readers s ! i)"
    using assms(1,2) by (simp_all add: main_inv_def reader_valid_nth)
  note r = reserve_next_block_file [OF st assms(4)]
  have all: "\<And>x. x \<in> set (readers s) \<Longrightarrow> reader_valid (queue s) x"
    using ir by (simp add: inv_readers_def)
  have le: "next_block (queue s) \<le> total_blocks (queue s)"
    using st by (simp add: inv_static_def)
  show ?thesis
  proof (cases "readers s ! i")
    case RStart
    with assms(3) all show ?thesis
      by (auto simp: inv_readers_def reader_open_def file_env_def dest!: in_set_updateD)
  next
    case (RClaim tb)
    with assms(3) all le show ?thesis
      by (auto simp: r inv_readers_def reader_valid_claim split: if_splits dest!: in_set_updateD)
  next
    case (RRead tb k)
    with rv le st have k: "k < num_blocks file" by (simp add: inv_static_def)
    have fs: "file_size (queue s) = length file" using st by (simp add: inv_static_def)
    from RRead assms(3) all show ?thesis
      by (auto simp: fs read_block_file_env [OF k assms(4)] inv_readers_def
          dest!: in_set_updateD)
  next
    case (REnqWait tb k buf)
    with assms(3) all show ?thesis
      by (auto simp: inv_readers_def split: option.splits dest!: in_set_updateD)
  next
    case (REnqLocked tb k buf)
    with assms(3) all show ?thesis
      by (auto simp: inv_readers_def enqueue_locked_def file_env_def dest!: in_set_updateD)
  next
    case (REnqPostFull tb k buf)
    with assms(3) all show ?thesis
      by (auto simp: inv_readers_def reader_after_enqueue_def dest!: in_set_updateD)
  next
    case (REnqPostEmpty tb k buf)
    with rv show ?thesis by simp
  next
    case (RFinish tb)
    with assms(3) all rv show ?thesis
      by (auto simp: inv_readers_def reader_finish_def Let_def dest!: in_set_updateD)
  qed (use assms(3) in simp_all)
qed

lemma reader_step_inv_active:
  assumes "main_inv file s" and "i < length (readers s)"
    and "reader_step v (file_env file) i (readers s ! i) s = Some s'"
  shows "inv_active s'"
proof -
  have ia: "inv_active s" using assms(1) by (simp add: main_inv_def)
  have en: "readers s ! i \<noteq> RNotCreated" "readers s ! i \<noteq> RDone"
    using reader_step_enabled [OF assms(3)] by simp_all
  have act: "active_readers (queue s) = live_readers (readers s)"
    by (rule reader_running_active [OF ia assms(2) en(1)])
  have nb: "\<not> before_active (orch s)"
  proof
    assume "before_active (orch s)"
    with ia have "\<forall>r \<in> set (readers s). r = RNotCreated" by (simp add: inv_active_def)
    with assms(2) en(1) show False by (meson nth_mem)
  qed
  have nd: "\<not> reading_done (queue s)"
  proof
    assume "reading_done (queue s)"
    with ia have "live_readers (readers s) = 0" by (simp add: inv_active_def)
    from live_readers_zero [OF this nth_mem [OF assms(2)]] en(2) show False by simp
  qed
  have o: "orch s' = orch s" by (rule reader_step_orch [OF assms(3)])
  show ?thesis
    unfolding inv_active_def o using nb act nd en assms(2,3)
    by (cases "readers s ! i")
      (auto simp: reader_open_def reader_finish_def reader_after_enqueue_def sem_wait_def
        enqueue_locked_def reserve_next_block_def Let_def live_readers_update
        split: if_splits option.splits)
qed

lemma reader_step_inv_done:
  assumes "main_inv file s" and "i < length (readers s)"
    and "reader_step v (file_env file) i (readers s ! i) s = Some s'"
  shows "inv_done s'"
proof -
  have ia: "inv_active s" and idn: "inv_done s" using assms(1) by (simp_all add: main_inv_def)
  have en: "readers s ! i \<noteq> RDone"
    using reader_step_enabled [OF assms(3)] by simp
  have nd: "\<not> reading_done (queue s)"
  proof
    assume "reading_done (queue s)"
    with ia have "live_readers (readers s) = 0" by (simp add: inv_active_def)
    from live_readers_zero [OF this nth_mem [OF assms(2)]] en show False by simp
  qed
  with idn have "CDone \<notin> set (consumers s)" by (auto simp: inv_done_def)
  then show ?thesis
    by (simp add: inv_done_def reader_step_consumers [OF assms(3)])
qed

lemma reader_step_readers:
  assumes "reader_step v e i r s = Some s'"
  shows "\<exists>r'. readers s' = (readers s)[i := r']"
proof (cases r)
  case RStart
  with assms show ?thesis by (auto simp: reader_open_def)
next
  case (RClaim tb)
  with assms show ?thesis by (auto simp: reserve_next_block_def split: if_splits)
next
  case (RRead tb k)
  with assms show ?thesis by (auto split: option.splits)
next
  case (REnqWait tb k buf)
  with assms show ?thesis by (auto split: option.splits)
next
  case (REnqLocked tb k buf)
  with assms show ?thesis by (auto simp: enqueue_locked_def split: if_splits)
next
  case (REnqPostFull tb k buf)
  with assms show ?thesis by (auto simp: reader_after_enqueue_def)
next
  case (REnqPostEmpty tb k buf)
  with assms show ?thesis by (auto simp: reader_after_enqueue_def)
next
  case (RFinish tb)
  with assms show ?thesis by (auto simp: reader_finish_def Let_def)
qed (use assms in simp_all)

lemma reader_step_readers_other:
  "reader_step v e i r s = Some s' \<Longrightarrow> j \<noteq> i \<Longrightarrow> readers s' ! j = readers s ! j"
  using reader_step_readers [of v e i r s s'] by auto

lemma reader_step_orch_valid:
  assumes "main_inv file s" and "i < length (readers s)"
    and "reader_step v (file_env file) i (readers s ! i) s = Some s'"
  shows "orch_valid (orch s') s'"
proof -
  have ov: "orch_valid (orch s) s" using assms(1) by (simp add: main_inv_def)
  have en: "readers s ! i \<noteq> RNotCreated"
    using reader_step_enabled [OF assms(3)] by simp
  have o: "orch s' = orch s" by (rule reader_step_orch [OF assms(3)])
  have c: "consumers s' = consumers s" by (rule reader_step_consumers [OF assms(3)])
  have len: "length (readers s) = NUM_READERS"
    using assms(1) by (simp add: main_inv_def inv_static_def)
  show ?thesis
  proof (cases "orch s")
    case (OSpawnReader k)
    have "readers s' ! j = RNotCreated" if "k \<le> j" "j < NUM_READERS" for j
    proof -
      from ov OSpawnReader that have n: "readers s ! j = RNotCreated" by simp
      with en have "j \<noteq> i" by auto
      from reader_step_readers_other [OF assms(3) this] n show ?thesis by simp
    qed
    with OSpawnReader o show ?thesis by simp
  qed (use ov o c in auto)
qed

lemma reader_step_main_inv:
  assumes "main_inv file s" and "i < length (readers s)"
    and "reader_step v (file_env file) i (readers s ! i) s = Some s'"
    and "length file + BLOCK_SIZE \<le> 2 ^ 64"
  shows "main_inv file s'"
proof -
  have "orch s' \<noteq> OStart"
    using assms(1) reader_step_orch [OF assms(3)] by (simp add: main_inv_def)
  then show ?thesis
    unfolding main_inv_def
    using reader_step_inv_static [OF assms] reader_step_inv_balance [OF assms]
      reader_step_inv_readers [OF assms] reader_step_inv_active [OF assms(1-3)]
      reader_step_inv_done [OF assms(1-3)] reader_step_orch_valid [OF assms(1-3)]
    by blast
qed

subsection \<open>Steps of a consumer preserve the invariants\<close>

lemma consumer_step_enabled:
  "consumer_step v i c s = Some s' \<Longrightarrow> c \<noteq> CNotCreated \<and> c \<noteq> CDone"
  by (cases c) simp_all

lemma dequeue_locked_cases:
  "dequeue_locked q =
     (if qcount q = 0
      then (if reading_done q \<and> active_readers q = 0 then (DeqDrained, q) else (DeqNotYet, q))
      else (case nodes q of
              [] \<Rightarrow> (DeqNull, q)
            | node # rest \<Rightarrow> (DeqNode node, q\<lparr>nodes := rest, qcount := qcount q - 1\<rparr>)))"
  by (simp add: dequeue_locked_def)

lemma consumer_step_frame:
  assumes "consumer_step v i c s = Some s'"
  shows "orch s' = orch s \<and> readers s' = readers s
       \<and> (\<exists>c'. consumers s' = (consumers s)[i := c'])
       \<and> next_block (queue s') = next_block (queue s)
       \<and> total_blocks (queue s') = total_blocks (queue s)
       \<and> file_size (queue s') = file_size (queue s)
       \<and> active_readers (queue s') = active_readers (queue s)
       \<and> reading_done (queue s') = reading_done (queue s)"
proof (cases c)
  case CCheck
  with assms show ?thesis by (auto simp: Let_def)
next
  case CDeqWait
  with assms show ?thesis by (auto split: option.splits)
next
  case CDeqLocked
  with assms show ?thesis
    by (auto simp: dequeue_locked_cases split: if_splits list.splits)
next
  case CDeqRepost
  with assms show ?thesis by auto
next
  case (CDeqPostEmpty buf)
  with assms show ?thesis by auto
next
  case (CProcess buf)
  with assms show ?thesis by (auto simp: process_buffer_data_def split_beta)
qed (use assms in simp_all)

lemma consumer_step_inv_static:
  assumes "main_inv file s" and "consumer_step v i c s = Some s'"
  shows "inv_static file s'"
proof -
  have st: "inv_static file s" using assms(1) by (simp add: main_inv_def)
  then have ini: "crc64_init (crc_tab s) = crc_tab s"
    by (simp add: inv_static_def crc64_init_fixed)
  show ?thesis
  proof (cases c)
    case CCheck
    with assms(2) st show ?thesis by (auto simp: inv_static_def Let_def)
  next
    case CDeqWait
    with assms(2) st show ?thesis by (auto simp: inv_static_def split: option.splits)
  next
    case CDeqLocked
    with assms(2) st show ?thesis
      by (auto simp: inv_static_def dequeue_locked_cases split: if_splits list.splits)
  next
    case CDeqRepost
    with assms(2) st show ?thesis by (auto simp: inv_static_def)
  next
    case (CDeqPostEmpty buf)
    with assms(2) st show ?thesis by (auto simp: inv_static_def)
  next
    case (CProcess buf)
    with assms(2) st ini show ?thesis
      by (auto simp: inv_static_def process_buffer_data_def split_beta crc64_compute_state)
  qed (use assms(2) in simp_all)
qed

lemma consumer_step_inv_balance:
  assumes "main_inv file s" and "i < length (consumers s)"
    and "consumer_step v i (consumers s ! i) s = Some s'"
  shows "inv_balance file s'"
proof -
  have st: "inv_static file s" and b: "balance file s = file_digest file"
    using assms(1) by (simp_all add: main_inv_def inv_balance_def)
  have ok: "crc64_ok (crc_tab s)" using st by (simp add: inv_static_def)
  show ?thesis
  proof (cases "consumers s ! i")
    case CCheck
    with assms(2,3) b show ?thesis
      by (auto simp: inv_balance_def balance_def xor_sum_update Let_def)
  next
    case CDeqWait
    with assms(2,3) b show ?thesis
      by (auto simp: inv_balance_def balance_def xor_sum_update split: option.splits)
  next
    case CDeqLocked
    with assms(2,3) b show ?thesis
      by (auto simp: inv_balance_def balance_def xor_sum_update dequeue_locked_cases ac_simps
          split: if_splits list.splits)
  next
    case CDeqRepost
    with assms(2,3) b show ?thesis
      by (auto simp: inv_balance_def balance_def xor_sum_update)
  next
    case (CDeqPostEmpty buf)
    with assms(2,3) b show ?thesis
      by (auto simp: inv_balance_def balance_def xor_sum_update)
  next
    case (CProcess buf)
    have h: "global_hash_xor (process_buffer_data v buf (length buf) s)
               = global_hash_xor s XOR crc64_digest buf"
      by (rule process_buffer_data_hash [OF ok])
    have q: "queue (process_buffer_data v buf (length buf) s) = queue s"
      "readers (process_buffer_data v buf (length buf) s) = readers s"
      by (simp_all add: process_buffer_data_def split_beta)
    from CProcess assms(2,3) b show ?thesis
      by (auto simp: inv_balance_def balance_def xor_sum_update h q ac_simps)
  qed (use assms(3) in simp_all)
qed

lemma reader_valid_frame:
  "next_block q' = next_block q \<Longrightarrow> total_blocks q' = total_blocks q \<Longrightarrow>
   reader_valid q r \<Longrightarrow> reader_valid q' r"
  by (cases r) simp_all

lemma consumer_step_inv_readers:
  assumes "main_inv file s" and "consumer_step v i c s = Some s'"
  shows "inv_readers s'"
proof -
  have ir: "inv_readers s" using assms(1) by (simp add: main_inv_def)
  note f = consumer_step_frame [OF assms(2)]
  show ?thesis
    unfolding inv_readers_def
  proof
    fix r assume "r \<in> set (readers s')"
    with f have "r \<in> set (readers s)" by simp
    with ir have "reader_valid (queue s) r" by (simp add: inv_readers_def)
    then show "reader_valid (queue s') r"
      using f by (intro reader_valid_frame [of "queue s'" "queue s"]) simp_all
  qed
qed

lemma consumer_step_inv_active:
  assumes "main_inv file s" and "consumer_step v i c s = Some s'"
  shows "inv_active s'"
  using assms(1) consumer_step_frame [OF assms(2)]
  by (simp add: main_inv_def inv_active_def)

lemma consumer_step_qcount:
  assumes "consumer_step v i c s = Some s'" and "qcount (queue s) = 0"
  shows "qcount (queue s') = 0"
proof (cases c)
  case CCheck
  with assms show ?thesis by (auto simp: Let_def)
next
  case CDeqWait
  with assms show ?thesis by (auto split: option.splits)
next
  case CDeqLocked
  with assms show ?thesis
    by (auto simp: dequeue_locked_cases split: if_splits list.splits)
next
  case CDeqRepost
  with assms show ?thesis by auto
next
  case (CDeqPostEmpty buf)
  with assms show ?thesis by auto
next
  case (CProcess buf)
  with assms show ?thesis by (auto simp: process_buffer_data_def split_beta)
qed (use assms in simp_all)

lemma consumer_step_new_done:
  assumes "consumer_step v i c s = Some s'" and "consumers s' ! i = CDone"
    and "i < length (consumers s)"
  shows "reading_done (queue s) \<and> qcount (queue s) = 0"
proof (cases c)
  case CCheck
  with assms show ?thesis
    by (auto simp: Let_def split: if_splits)
next
  case CDeqWait
  with assms show ?thesis by (auto split: option.splits)
next
  case CDeqLocked
  with assms show ?thesis
    by (auto simp: dequeue_locked_cases split: if_splits list.splits)
next
  case CDeqRepost
  with assms show ?thesis by auto
next
  case (CDeqPostEmpty buf)
  with assms show ?thesis by auto
next
  case (CProcess buf)
  with assms show ?thesis by (auto simp: process_buffer_data_def split_beta)
qed (use assms in simp_all)

lemma consumer_step_inv_done:
  assumes "main_inv file s" and "i < length (consumers s)"
    and "consumer_step v i (consumers s ! i) s = Some s'"
  shows "inv_done s'"
proof -
  have idn: "inv_done s" using assms(1) by (simp add: main_inv_def)
  note f = consumer_step_frame [OF assms(3)]
  from f obtain c' where c': "consumers s' = (consumers s)[i := c']" by blast
  show ?thesis
    unfolding inv_done_def
  proof
    assume d: "CDone \<in> set (consumers s')"
    have "reading_done (queue s) \<and> qcount (queue s) = 0"
    proof (cases "c' = CDone")
      case True
      with c' assms(2) have "consumers s' ! i = CDone" by simp
      from consumer_step_new_done [OF assms(3) this assms(2)] show ?thesis .
    next
      case False
      with d c' have "CDone \<in> set (consumers s)" by (auto dest!: in_set_updateD)
      with idn show ?thesis by (simp add: inv_done_def)
    qed
    then show "reading_done (queue s') \<and> qcount (queue s') = 0"
      using f consumer_step_qcount [OF assms(3)] by simp
  qed
qed

lemma consumer_step_orch_valid:
  assumes "main_inv file s" and "i < length (consumers s)"
    and "consumer_step v i (consumers s ! i) s = Some s'"
  shows "orch_valid (orch s') s'"
proof -
  have ov: "orch_valid (orch s) s" using assms(1) by (simp add: main_inv_def)
  note f = consumer_step_frame [OF assms(3)]
  from f obtain c' where c': "consumers s' = (consumers s)[i := c']" by blast
  have o: "orch s' = orch s" and r: "readers s' = readers s" using f by simp_all
  have en: "consumers s ! i \<noteq> CNotCreated" "consumers s ! i \<noteq> CDone"
    using consumer_step_enabled [OF assms(3)] by simp_all
  have keep: "consumers s' ! j = consumers s ! j"
    if "consumers s ! j = CNotCreated \<or> consumers s ! j = CDone" for j
  proof -
    from that en have "j \<noteq> i" by auto
    with c' show ?thesis by simp
  qed
  show ?thesis
    unfolding o using ov r keep by (cases "orch s") auto
qed

lemma consumer_step_main_inv:
  assumes "main_inv file s" and "i < length (consumers s)"
    and "consumer_step v i (consumers s ! i) s = Some s'"
  shows "main_inv file s'"
proof -
  have "orch s' \<noteq> OStart"
    using assms(1) consumer_step_frame [OF assms(3)] by (simp add: main_inv_def)
  then show ?thesis
    unfolding main_inv_def
    using consumer_step_inv_static [OF assms(1,3)] consumer_step_inv_balance [OF assms]
      consumer_step_inv_readers [OF assms(1,3)] consumer_step_inv_active [OF assms(1,3)]
      consumer_step_inv_done [OF assms] consumer_step_orch_valid [OF assms]
    by blast
qed

subsection \<open>Steps of the orchestrator preserve the invariants\<close>

lemma live_readers_all_not_created:
  "\<forall>r \<in> set rs. r = RNotCreated \<Longrightarrow> live_readers rs = int (length rs)"
  unfolding live_readers_def by (induction rs) auto

lemma live_readers_not_created:
  "(\<And>r. r \<in> set rs \<Longrightarrow> r = RNotCreated) \<Longrightarrow> live_readers rs = int (length rs)"
  by (rule live_readers_all_not_created) blast

lemma file_env_simps [simp]:
  "consumer_create_ok (file_env file) i" "reader_create_ok (file_env file) i"
  "file_size_probe (file_env file) = Some (length file)"
  by (simp_all add: file_env_def)

lemma orch_step_inv_static:
  assumes "main_inv file s" and "orch_step v (file_env file) (orch s) s = Some s'"
  shows "inv_static file s'"
proof -
  have st: "inv_static file s" using assms(1) by (simp add: main_inv_def)
  show ?thesis
  proof (cases "orch s")
    case OStart
    with assms(1) show ?thesis by (simp add: main_inv_def)
  next
    case (OSpawnConsumer k)
    with assms(2) st show ?thesis by (auto simp: inv_static_def split: if_splits)
  next
    case OSetActive
    with assms(2) st show ?thesis by (auto simp: inv_static_def)
  next
    case (OSpawnReader k)
    with assms(2) st show ?thesis by (auto simp: inv_static_def split: if_splits)
  next
    case (OJoinReader k)
    with assms(2) st show ?thesis by (auto simp: inv_static_def split: if_splits)
  next
    case (OWake k)
    with assms(2) st show ?thesis by (auto simp: inv_static_def split: if_splits)
  next
    case (OJoinConsumer k)
    with assms(2) st show ?thesis by (auto simp: inv_static_def split: if_splits)
  next
    case OReport
    with assms(2) st show ?thesis by (auto simp: inv_static_def async_report_def)
  next
    case ODone
    with assms(2) show ?thesis by simp
  qed
qed

lemma orch_step_inv_balance:
  assumes "main_inv file s" and "orch_step v (file_env file) (orch s) s = Some s'"
  shows "inv_balance file s'"
proof -
  have st: "inv_static file s" and b: "balance file s = file_digest file"
    and ov: "orch_valid (orch s) s" and ia: "inv_active s"
    using assms(1) by (simp_all add: main_inv_def inv_balance_def)
  have lc: "length (consumers s) = NUM_CONSUMERS" and lr: "length (readers s) = NUM_READERS"
    using st by (simp_all add: inv_static_def)
  show ?thesis
  proof (cases "orch s")
    case OStart
    with assms(1) show ?thesis by (simp add: main_inv_def)
  next
    case (OSpawnConsumer k)
    show ?thesis
    proof (cases "k < NUM_CONSUMERS")
      case True
      with ov OSpawnConsumer have "consumers s ! k = CNotCreated" by simp
      with True OSpawnConsumer assms(2) b lc show ?thesis
        by (auto simp: inv_balance_def balance_def xor_sum_update)
    next
      case False
      with OSpawnConsumer assms(2) b show ?thesis
        by (auto simp: inv_balance_def balance_def)
    qed
  next
    case OSetActive
    with assms(2) b show ?thesis by (auto simp: inv_balance_def balance_def)
  next
    case (OSpawnReader k)
    show ?thesis
    proof (cases "k < NUM_READERS")
      case True
      with ov OSpawnReader have "readers s ! k = RNotCreated" by simp
      with True OSpawnReader assms(2) b lr show ?thesis
        by (auto simp: inv_balance_def balance_def xor_sum_update)
    next
      case False
      with OSpawnReader assms(2) b show ?thesis
        by (auto simp: inv_balance_def balance_def)
    qed
  next
    case (OJoinReader k)
    with assms(2) b show ?thesis by (auto simp: inv_balance_def balance_def split: if_splits)
  next
    case (OWake k)
    with assms(2) b show ?thesis by (auto simp: inv_balance_def balance_def split: if_splits)
  next
    case (OJoinConsumer k)
    with assms(2) b show ?thesis by (auto simp: inv_balance_def balance_def split: if_splits)
  next
    case OReport
    with assms(2) b show ?thesis by (auto simp: inv_balance_def balance_def async_report_def)
  next
    case ODone
    with assms(2) show ?thesis by simp
  qed
qed

lemma orch_step_inv_readers:
  assumes "main_inv file s" and "orch_step v (file_env file) (orch s) s = Some s'"
  shows "inv_readers s'"
proof -
  have all: "\<And>x. x \<in> set (readers s) \<Longrightarrow> reader_valid (queue s) x"
    using assms(1) by (simp add: main_inv_def inv_readers_def)
  show ?thesis
  proof (cases "orch s")
    case OStart
    with assms(1) show ?thesis by (simp add: main_inv_def)
  next
    case (OSpawnConsumer k)
    with assms(2) all show ?thesis by (auto simp: inv_readers_def split: if_splits)
  next
    case OSetActive
    with assms(2) all show ?thesis by (auto simp: inv_readers_def)
  next
    case (OSpawnReader k)
    with assms(2) all show ?thesis
      by (auto simp: inv_readers_def split: if_splits dest!: in_set_updateD)
  next
    case (OJoinReader k)
    with assms(2) all show ?thesis by (auto simp: inv_readers_def split: if_splits)
  next
    case (OWake k)
    with assms(2) all show ?thesis by (auto simp: inv_readers_def split: if_splits)
  next
    case (OJoinConsumer k)
    with assms(2) all show ?thesis by (auto simp: inv_readers_def split: if_splits)
  next
    case OReport
    with assms(2) all show ?thesis by (auto simp: inv_readers_def async_report_def)
  next
    case ODone
    with assms(2) show ?thesis by simp
  qed
qed

lemma orch_step_inv_active:
  assumes "main_inv file s" and "orch_step v (file_env file) (orch s) s = Some s'"
  shows "inv_active s'"
proof -
  have ia: "inv_active s" and ov: "orch_valid (orch s) s"
    and lr: "length (readers s) = NUM_READERS"
    using assms(1) by (simp_all add: main_inv_def inv_static_def)
  show ?thesis
  proof (cases "orch s")
    case OStart
    with assms(1) show ?thesis by (simp add: main_inv_def)
  next
    case (OSpawnConsumer k)
    with assms(2) ia show ?thesis by (auto simp: inv_active_def split: if_splits)
  next
    case OSetActive
    with ia have "\<And>r. r \<in> set (readers s) \<Longrightarrow> r = RNotCreated" "\<not> reading_done (queue s)"
      by (simp_all add: inv_active_def)
    with OSetActive assms(2) lr show ?thesis
      by (auto simp: inv_active_def live_readers_not_created)
  next
    case (OSpawnReader k)
    show ?thesis
    proof (cases "k < NUM_READERS")
      case True
      with ov OSpawnReader have "readers s ! k = RNotCreated" by simp
      with True OSpawnReader assms(2) ia lr show ?thesis
        by (auto simp: inv_active_def live_readers_update)
    next
      case False
      with OSpawnReader assms(2) ia show ?thesis by (auto simp: inv_active_def)
    qed
  next
    case (OJoinReader k)
    with assms(2) ia show ?thesis by (auto simp: inv_active_def split: if_splits)
  next
    case (OWake k)
    with assms(2) ia show ?thesis by (auto simp: inv_active_def split: if_splits)
  next
    case (OJoinConsumer k)
    with assms(2) ia show ?thesis by (auto simp: inv_active_def split: if_splits)
  next
    case OReport
    with assms(2) ia show ?thesis by (auto simp: inv_active_def async_report_def)
  next
    case ODone
    with assms(2) show ?thesis by simp
  qed
qed

lemma orch_step_inv_done:
  assumes "main_inv file s" and "orch_step v (file_env file) (orch s) s = Some s'"
  shows "inv_done s'"
proof -
  have idn: "inv_done s" using assms(1) by (simp add: main_inv_def)
  show ?thesis
  proof (cases "orch s")
    case OStart
    with assms(1) show ?thesis by (simp add: main_inv_def)
  next
    case (OSpawnConsumer k)
    with assms(2) idn show ?thesis
      by (auto simp: inv_done_def split: if_splits dest!: in_set_updateD)
  next
    case OSetActive
    with assms(2) idn show ?thesis by (auto simp: inv_done_def)
  next
    case (OSpawnReader k)
    with assms(2) idn show ?thesis by (auto simp: inv_done_def split: if_splits)
  next
    case (OJoinReader k)
    with assms(2) idn show ?thesis by (auto simp: inv_done_def split: if_splits)
  next
    case (OWake k)
    with assms(2) idn show ?thesis by (auto simp: inv_done_def split: if_splits)
  next
    case (OJoinConsumer k)
    with assms(2) idn show ?thesis by (auto simp: inv_done_def split: if_splits)
  next
    case OReport
    with assms(2) idn show ?thesis by (auto simp: inv_done_def async_report_def)
  next
    case ODone
    with assms(2) show ?thesis by simp
  qed
qed

lemma orch_step_orch_valid:
  assumes "main_inv file s" and "orch_step v (file_env file) (orch s) s = Some s'"
  shows "orch s' \<noteq> OStart \<and> orch_valid (orch s') s'"
proof -
  have ov: "orch_valid (orch s) s" and ia: "inv_active s"
    and lr: "length (readers s) = NUM_READERS"
    using assms(1) by (simp_all add: main_inv_def inv_static_def)
  show ?thesis
  proof (cases "orch s")
    case OStart
    with assms(1) show ?thesis by (simp add: main_inv_def)
  next
    case (OSpawnConsumer k)
    with assms(2) ov show ?thesis by (auto split: if_splits)
  next
    case OSetActive
    with ia have "\<And>r. r \<in> set (readers s) \<Longrightarrow> r = RNotCreated"
      by (simp add: inv_active_def)
    with OSetActive assms(2) lr show ?thesis by auto
  next
    case (OSpawnReader k)
    with assms(2) ov show ?thesis by (auto split: if_splits)
  next
    case (OJoinReader k)
    with assms(2) ov show ?thesis by (auto split: if_splits)
  next
    case (OWake k)
    with assms(2) ov show ?thesis by (auto split: if_splits)
  next
    case (OJoinConsumer k)
    with assms(2) ov show ?thesis by (auto simp: less_Suc_eq split: if_splits)
  next
    case OReport
    with assms(2) ov show ?thesis by (auto simp: async_report_def)
  next
    case ODone
    with assms(2) show ?thesis by simp
  qed
qed

lemma orch_step_main_inv:
  assumes "main_inv file s" and "orch_step v (file_env file) (orch s) s = Some s'"
  shows "main_inv file s'"
  unfolding main_inv_def
  using orch_step_inv_static [OF assms] orch_step_inv_balance [OF assms]
    orch_step_inv_readers [OF assms] orch_step_inv_active [OF assms]
    orch_step_inv_done [OF assms] orch_step_orch_valid [OF assms]
  by blast

subsection \<open>Every interleaving keeps the invariants\<close>

lemma num_readers_pos: "0 < NUM_READERS" and num_consumers_pos: "0 < NUM_CONSUMERS"
  by (simp_all add: NUM_READERS_def NUM_CONSUMERS_def)

lemma async_setup_file_env:
  assumes "0 < length file" and "length file + BLOCK_SIZE \<le> 2 ^ 64"
  shows "async_setup v (file_env file) (async_start c) =
           (async_start c)
             \<lparr>printed := say v 2 (FileSize (length file)) (say v 2 AsyncBanner []),
              queue := init_buffer_queue
                         \<lparr>file_size := length file, total_blocks := num_blocks file,
                          next_block := 0\<rparr>,
              crc_tab := crc64_init c, global_hash_xor := 0, orch := OSpawnConsumer 0\<rparr>"
proof -
  have "length file + BLOCK_SIZE - 1 < 2 ^ 64" using assms by simp
  then have "size_t (length file + BLOCK_SIZE - 1) = length file + BLOCK_SIZE - 1"
    by (rule size_t_small)
  then show ?thesis
    using assms(1)
    by (simp add: async_setup_def get_file_size_def async_start_def num_blocks_def)
qed

lemma async_setup_main_inv:
  assumes "crc64_ok c" and "0 < length file" and "length file + BLOCK_SIZE \<le> 2 ^ 64"
  shows "main_inv file (async_setup v (file_env file) (async_start c))"
proof -
  note e = async_setup_file_env [OF assms(2,3)]
  have 1: "inv_static file (async_setup v (file_env file) (async_start c))"
    unfolding e using assms(1)
    by (simp add: inv_static_def async_start_def init_buffer_queue_def crc64_init_ok
        crc64_init_initialized)
  have z1: "xor_sum (map (reader_owes file) (replicate NUM_READERS RNotCreated)) = 0"
    by (rule xor_sum_zero) simp
  have z2: "xor_sum (map consumer_owes (replicate NUM_CONSUMERS CNotCreated)) = 0"
    by (rule xor_sum_zero) simp
  have 2: "inv_balance file (async_setup v (file_env file) (async_start c))"
    unfolding e by (simp add: inv_balance_def balance_def async_start_def init_buffer_queue_def z1 z2
        file_digest_def del: map_replicate)
  have 3: "inv_readers (async_setup v (file_env file) (async_start c))"
    unfolding e by (simp add: inv_readers_def async_start_def)
  have 4: "inv_active (async_setup v (file_env file) (async_start c))"
    unfolding e by (simp add: inv_active_def async_start_def init_buffer_queue_def)
  have 5: "inv_done (async_setup v (file_env file) (async_start c))"
    unfolding e by (simp add: inv_done_def async_start_def)
  have 6: "orch_valid (orch (async_setup v (file_env file) (async_start c)))
             (async_setup v (file_env file) (async_start c))"
    unfolding e by (simp add: async_start_def)
  have 0: "orch (async_setup v (file_env file) (async_start c)) \<noteq> OStart"
    unfolding e by simp
  from 0 1 2 3 4 5 6 show ?thesis unfolding main_inv_def by blast
qed

lemma step_main_inv:
  assumes "main_inv file s" and "step v (file_env file) t s = Some s'"
    and "length file + BLOCK_SIZE \<le> 2 ^ 64"
  shows "main_inv file s'"
proof (cases t)
  case Orchestrator
  with assms(2) have "orch_step v (file_env file) (orch s) s = Some s'"
    by (simp add: step_def)
  from orch_step_main_inv [OF assms(1) this] show ?thesis .
next
  case (Reader i)
  with assms(2) have i: "i < length (readers s)"
    and r: "reader_step v (file_env file) i (readers s ! i) s = Some s'"
    by (simp_all add: step_def split: if_splits)
  from reader_step_main_inv [OF assms(1) i r assms(3)] show ?thesis .
next
  case (Consumer i)
  with assms(2) have i: "i < length (consumers s)"
    and r: "consumer_step v i (consumers s ! i) s = Some s'"
    by (simp_all add: step_def split: if_splits)
  from consumer_step_main_inv [OF assms(1) i r] show ?thesis .
qed

lemma step_async_start:
  "step v e t (async_start c) =
     (if t = Orchestrator then Some (async_setup v e (async_start c)) else None)"
  by (cases t) (simp_all add: step_def async_start_def)

lemma sched_step_pipeline_inv:
  assumes "pipeline_inv c file s" and "crc64_ok c" and "0 < length file"
    and "length file + BLOCK_SIZE \<le> 2 ^ 64"
  shows "pipeline_inv c file (sched_step v (file_env file) t s)"
proof (cases "s = async_start c")
  case True
  then show ?thesis
    using async_setup_main_inv [OF assms(2-4), of v]
    by (simp add: sched_step_def step_async_start pipeline_inv_def)
next
  case False
  with assms(1) have m: "main_inv file s" by (simp add: pipeline_inv_def)
  show ?thesis
  proof (cases "step v (file_env file) t s")
    case None
    with assms(1) show ?thesis by (simp add: sched_step_def)
  next
    case (Some s')
    from step_main_inv [OF m Some assms(4)] Some show ?thesis
      by (simp add: sched_step_def pipeline_inv_def)
  qed
qed

lemma run_pipeline_inv:
  assumes "pipeline_inv c file s" and "crc64_ok c" and "0 < length file"
    and "length file + BLOCK_SIZE \<le> 2 ^ 64"
  shows "pipeline_inv c file (run v (file_env file) sched s)"
  using assms(1)
proof (induction sched arbitrary: s)
  case Nil
  then show ?case by (simp add: run_def)
next
  case (Cons t ts)
  from Cons.IH [OF sched_step_pipeline_inv [OF Cons.prems assms(2-4)]]
  show ?case by (simp add: run_def)
qed

lemma all_done_readers:
  assumes "main_inv file s" and "orch s = ODone"
  shows "reading_done (queue s) \<and> nodes (queue s) = []
       \<and> (\<forall>r \<in> set (readers s). r = RDone) \<and> (\<forall>c \<in> set (consumers s). c = CDone)
       \<and> next_block (queue s) = total_blocks (queue s)"
proof -
  have st: "inv_static file s" and ia: "inv_active s" and idn: "inv_done s"
    and ir: "inv_readers s" and ov: "orch_valid ODone s"
    using assms by (auto simp: main_inv_def)
  have lc: "length (consumers s) = NUM_CONSUMERS" and lr: "length (readers s) = NUM_READERS"
    using st by (simp_all add: inv_static_def)
  have cd: "\<forall>c \<in> set (consumers s). c = CDone"
    using ov lc by (auto simp: in_set_conv_nth)
  have "consumers s ! 0 \<in> set (consumers s)"
    using lc num_consumers_pos by (intro nth_mem) simp
  with cd have "CDone \<in> set (consumers s)" by metis
  with idn have rd: "reading_done (queue s)" and q0: "qcount (queue s) = 0"
    by (simp_all add: inv_done_def)
  from q0 st have n: "nodes (queue s) = []" by (simp add: inv_static_def)
  from rd ia have "live_readers (readers s) = 0" by (simp add: inv_active_def)
  then have rdn: "\<forall>r \<in> set (readers s). r = RDone"
    using live_readers_zero by blast
  have m: "readers s ! 0 \<in> set (readers s)"
    using lr num_readers_pos by (intro nth_mem) simp
  with rdn have "readers s ! 0 = RDone" by blast
  moreover from ir m have "reader_valid (queue s) (readers s ! 0)"
    by (simp add: inv_readers_def)
  ultimately have nb: "next_block (queue s) = total_blocks (queue s)" by simp
  from rd n rdn cd nb show ?thesis by blast
qed

lemma main_inv_final_hash:
  assumes "main_inv file s" and "orch s = ODone"
  shows "global_hash_xor s = file_digest file"
proof -
  note d = all_done_readers [OF assms]
  have b: "balance file s = file_digest file"
    using assms(1) by (simp add: main_inv_def inv_balance_def)
  have z1: "xor_sum (map (reader_owes file) (readers s)) = 0"
    using d by (intro xor_sum_zero) auto
  have z2: "xor_sum (map consumer_owes (consumers s)) = 0"
    using d by (intro xor_sum_zero) auto
  from b d z1 z2 show ?thesis by (simp add: balance_def)
qed

lemma run_final_hash:
  assumes "crc64_ok c" and "0 < length file" and "length file + BLOCK_SIZE \<le> 2 ^ 64"
    and "orch (run v (file_env file) sched (async_start c)) = ODone"
  shows "global_hash_xor (run v (file_env file) sched (async_start c)) = file_digest file"
proof -
  have "pipeline_inv c file (async_start c)" by (simp add: pipeline_inv_def)
  from run_pipeline_inv [OF this assms(1-3)]
  have p: "pipeline_inv c file (run v (file_env file) sched (async_start c))" .
  have "run v (file_env file) sched (async_start c) \<noteq> async_start c"
    using assms(4) by (auto simp: async_start_def)
  with p have "main_inv file (run v (file_env file) sched (async_start c))"
    by (simp add: pipeline_inv_def)
  from main_inv_final_hash [OF this assms(4)] show ?thesis .
qed

subsection \<open>The reported digest\<close>

lemma step_after_end:
  assumes "main_inv file s" and "orch s = ODone"
  shows "step v e t s = None"
proof -
  note d = all_done_readers [OF assms]
  show ?thesis
  proof (cases t)
    case Orchestrator
    with assms(2) show ?thesis by (simp add: step_def)
  next
    case (Reader i)
    show ?thesis
    proof (cases "i < length (readers s)")
      case True
      with d have "readers s ! i = RDone" by (meson nth_mem)
      with Reader show ?thesis by (simp add: step_def)
    next
      case False
      with Reader show ?thesis by (simp add: step_def)
    qed
  next
    case (Consumer i)
    show ?thesis
    proof (cases "i < length (consumers s)")
      case True
      with d have "consumers s ! i = CDone" by (meson nth_mem)
      with Consumer show ?thesis by (simp add: step_def)
    next
      case False
      with Consumer show ?thesis by (simp add: step_def)
    qed
  qed
qed

lemma orch_step_ends:
  assumes "orch_step v (file_env file) p s = Some s'" and "orch s' = ODone" and "p \<noteq> OStart"
  shows "p = OReport \<and> s' = async_report v s"
  using assms by (cases p) (auto split: if_splits)

lemma step_report_inv:
  assumes "main_inv file s" and "report_inv v file s"
    and "step v (file_env file) t s = Some s'" and "length file + BLOCK_SIZE \<le> 2 ^ 64"
  shows "report_inv v file s'"
proof (cases "orch s' = ODone \<and> 1 \<le> v")
  case False
  then show ?thesis by (auto simp: report_inv_def)
next
  case True
  have m': "main_inv file s'" by (rule step_main_inv [OF assms(1,3,4)])
  have nd: "orch s \<noteq> ODone"
    using step_after_end [OF assms(1), of v "file_env file" t] assms(3) by auto
  have "t = Orchestrator"
  proof (cases t)
    case (Reader i)
    with assms(3) have "reader_step v (file_env file) i (readers s ! i) s = Some s'"
      by (simp add: step_def split: if_splits)
    from reader_step_orch [OF this] True nd show ?thesis by simp
  next
    case (Consumer i)
    with assms(3) have "consumer_step v i (consumers s ! i) s = Some s'"
      by (simp add: step_def split: if_splits)
    from consumer_step_frame [OF this] True nd show ?thesis by simp
  qed simp
  with assms(3) have o: "orch_step v (file_env file) (orch s) s = Some s'"
    by (simp add: step_def)
  have "orch s \<noteq> OStart" using assms(1) by (simp add: main_inv_def)
  from orch_step_ends [OF o _ this] True have s': "s' = async_report v s" by simp
  have "global_hash_xor s' = file_digest file"
    using main_inv_final_hash [OF m'] True by simp
  then have "global_hash_xor s = file_digest file"
    by (simp add: s' async_report_def)
  with True show ?thesis
    by (simp add: report_inv_def s' async_report_def say_def Let_def)
qed

lemma sched_step_report_inv:
  assumes "pipeline_inv c file s" and "report_inv v file s"
    and "0 < length file" and "length file + BLOCK_SIZE \<le> 2 ^ 64"
  shows "report_inv v file (sched_step v (file_env file) t s)"
proof (cases "s = async_start c")
  case True
  then show ?thesis
    by (simp add: sched_step_def step_async_start async_setup_file_env [OF assms(3,4)]
        report_inv_def)
      (simp add: async_start_def)
next
  case False
  with assms(1) have m: "main_inv file s" by (simp add: pipeline_inv_def)
  show ?thesis
  proof (cases "step v (file_env file) t s")
    case None
    with assms(2) show ?thesis by (simp add: sched_step_def)
  next
    case (Some s')
    from step_report_inv [OF m assms(2) Some assms(4)] Some show ?thesis
      by (simp add: sched_step_def)
  qed
qed

lemma run_report_inv:
  assumes "crc64_ok c" and "0 < length file" and "length file + BLOCK_SIZE \<le> 2 ^ 64"
    and "pipeline_inv c file s" and "report_inv v file s"
  shows "report_inv v file (run v (file_env file) sched s)"
  using assms(4,5)
proof (induction sched arbitrary: s)
  case Nil
  then show ?case by (simp add: run_def)
next
  case (Cons t ts)
  have p: "pipeline_inv c file (sched_step v (file_env file) t s)"
    by (rule sched_step_pipeline_inv [OF Cons.prems(1) assms(1-3)])
  have r: "report_inv v file (sched_step v (file_env file) t s)"
    by (rule sched_step_report_inv [OF Cons.prems assms(2,3)])
  from Cons.IH [OF p r] show ?case by (simp add: run_def)
qed

lemma run_final_report:
  assumes "crc64_ok c" and "0 < length file" and "length file + BLOCK_SIZE \<le> 2 ^ 64"
    and "orch (run v (file_env file) sched (async_start c)) = ODone" and "1 \<le> v"
  shows "HashXor (file_digest file) \<in> set (printed (run v (file_env file) sched (async_start c)))"
proof -
  have p: "pipeline_inv c file (async_start c)" by (simp add: pipeline_inv_def)
  have r: "report_inv v file (async_start c)" by (simp add: report_inv_def async_start_def)
  from run_report_inv [OF assms(1-3) p r, of sched] assms(4,5) show ?thesis
    by (simp add: report_inv_def)
qed

subsection \<open>Evaluating concrete runs\<close>

lemma replicate_4: "replicate 4 x = [x, x, x, x]"
  by (simp add: numeral_eq_Suc)

lemmas run_eval =
  run_def sched_step_def step_def async_setup_def async_report_def get_file_size_def say_def
  async_start_def init_buffer_queue_def NUM_READERS_def NUM_CONSUMERS_def MAX_QUEUE_SIZE_def
  BLOCK_SIZE_def size_t_def size_t_sub_def reader_open_def reader_finish_def
  reader_after_enqueue_def reserve_next_block_def read_block_def block_offset_def
  block_bytes_to_read_def sem_wait_def sem_post_def enqueue_locked_def dequeue_locked_def
  process_buffer_data_def Let_def split_beta replicate_4

text \<open>C4, as stated, fails: the read of block 0 of a file of two blocks delivers three bytes
  instead of a full block, and the reader does not leave its loop: the three bytes are in the
  queue and the reader has gone on to claim block 1.\<close>

theorem reader_short_read_counterexample:
  "block_bytes_to_read 16777226 0 = 16777216
   \<and> length (fread_at short_read_env (block_offset 0) 16777216) = 3
   \<and> readers (run 1 short_read_env
        [Orchestrator, Orchestrator, Orchestrator, Orchestrator, Orchestrator, Orchestrator,
         Orchestrator, Orchestrator,
         Reader 0, Reader 0, Reader 0, Reader 0, Reader 0, Reader 0, Reader 0]
        (async_start crc64_start)) ! 0 = RRead 3 1
   \<and> nodes (queue (run 1 short_read_env
        [Orchestrator, Orchestrator, Orchestrator, Orchestrator, Orchestrator, Orchestrator,
         Orchestrator, Orchestrator,
         Reader 0, Reader 0, Reader 0, Reader 0, Reader 0, Reader 0, Reader 0]
        (async_start crc64_start))) = [[1, 2, 3]]"
  by (simp add: run_eval short_read_env_def)

theorem reader_short_read_witness:
  "reader_step 1 short_read_env 0 (RRead 0 0)
     ((async_start crc64_start)\<lparr>queue := init_buffer_queue\<lparr>file_size := 16777226\<rparr>\<rparr>)
   = Some ((async_start crc64_start)
       \<lparr>queue := init_buffer_queue\<lparr>file_size := 16777226\<rparr>,
        readers := [REnqWait 0 0 [1, 2, 3], RNotCreated, RNotCreated, RNotCreated]\<rparr>)
   \<and> reader_step 1 (short_read_env\<lparr>fread_at := (\<lambda>off n. [])\<rparr>) 0 (RRead 0 0)
     ((async_start crc64_start)\<lparr>queue := init_buffer_queue\<lparr>file_size := 16777226\<rparr>\<rparr>)
   = Some ((async_start crc64_start)
       \<lparr>queue := init_buffer_queue\<lparr>file_size := 16777226\<rparr>,
        readers := [RFinish 0, RNotCreated, RNotCreated, RNotCreated]\<rparr>)"
  using reader_short_read [of 1 short_read_env 0 0 0
      "(async_start crc64_start)\<lparr>queue := init_buffer_queue\<lparr>file_size := 16777226\<rparr>\<rparr>"]
    reader_short_read [of 1 "short_read_env\<lparr>fread_at := (\<lambda>off n. [])\<rparr>" 0 0 0
      "(async_start crc64_start)\<lparr>queue := init_buffer_queue\<lparr>file_size := 16777226\<rparr>\<rparr>"]
  by (simp add: short_read_env_def async_start_def init_buffer_queue_def NUM_READERS_def
      replicate_4 block_offset_def block_bytes_to_read_def size_t_def size_t_sub_def
      BLOCK_SIZE_def)

subsection \<open>A schedule for two blocks\<close>

lemma two_block_schedule_ends:
  "orch (run 1 (file_env (replicate 16777217 0)) two_block_schedule (async_start crc64_start))
     = ODone"
  by (simp add: run_eval file_env_def two_block_schedule_def)

lemma block_plus_one_blocks:
  assumes "length file = BLOCK_SIZE + 1"
  shows "num_blocks file = 2" and "file_block file 0 = take BLOCK_SIZE file"
    and "file_block file (Suc 0) = drop BLOCK_SIZE file"
  using assms by (simp_all add: num_blocks_def file_block_def BLOCK_SIZE_def)

subsection \<open>The empty file\<close>

lemma async_setup_empty:
  "file_size_probe e = Some 0 \<Longrightarrow>
   async_setup v e s = s\<lparr>printed := say v 2 FileIsEmpty (say v 2 AsyncBanner (printed s)),
                          orch := ODone\<rparr>"
  by (simp add: async_setup_def get_file_size_def)

lemma step_not_created:
  assumes "orch s = ODone" and "readers s = replicate NUM_READERS RNotCreated"
    and "consumers s = replicate NUM_CONSUMERS CNotCreated"
  shows "step v e t s = None"
  using assms by (cases t) (simp_all add: step_def)

lemma run_not_created:
  assumes "orch s = ODone" and "readers s = replicate NUM_READERS RNotCreated"
    and "consumers s = replicate NUM_CONSUMERS CNotCreated"
  shows "run v e sched s = s"
proof (induction sched)
  case Nil
  show ?case by (simp add: run_def)
next
  case (Cons t ts)
  then show ?case
    using step_not_created [OF assms, of v e t] by (simp add: run_def sched_step_def)
qed

lemma run_empty_file:
  assumes "file_size_probe e = Some 0"
  shows "run v e sched (async_start c) =
           (if Orchestrator \<in> set sched
            then (async_start c)\<lparr>printed := say v 2 FileIsEmpty (say v 2 AsyncBanner []),
                                  orch := ODone\<rparr>
            else async_start c)"
proof (induction sched)
  case Nil
  show ?case by (simp add: run_def)
next
  case (Cons t ts)
  show ?case
  proof (cases "t = Orchestrator")
    case True
    have s: "sched_step v e t (async_start c)
               = (async_start c)\<lparr>printed := say v 2 FileIsEmpty (say v 2 AsyncBanner []),
                                    orch := ODone\<rparr>"
      using True
      by (simp add: sched_step_def step_async_start async_setup_empty [OF assms])
        (simp add: async_start_def)
    have "run v e (t # ts) (async_start c) = run v e ts (sched_step v e t (async_start c))"
      by (simp add: run_def)
    also have "\<dots> = (async_start c)\<lparr>printed := say v 2 FileIsEmpty (say v 2 AsyncBanner []),
                                       orch := ODone\<rparr>"
      unfolding s by (rule run_not_created) (simp_all add: async_start_def)
    finally show ?thesis using True by simp
  next
    case False
    then have "sched_step v e t (async_start c) = async_start c"
      by (simp add: sched_step_def step_async_start)
    then have "run v e (t # ts) (async_start c) = run v e ts (async_start c)"
      by (simp add: run_def)
    with Cons.IH False show ?thesis by simp
  qed
qed

text \<open>C5, as the code has it: on an empty file \<^verbatim>\<open>async_sequential_read\<close> returns right
  after the size probe. Whatever the schedule, no thread is created and no block is processed,
  the accumulator keeps its initial value 0 (the identity of the combining operator), and no
  digest and no count is printed: the output is empty, or the banner and ``File is empty'' at
  verbosity 2.\<close>

theorem empty_file_run:
  assumes "file_size_probe e = Some 0"
  shows "run v e sched (async_start c) =
           (if Orchestrator \<in> set sched
            then (async_start c)\<lparr>printed := say v 2 FileIsEmpty (say v 2 AsyncBanner []),
                                  orch := ODone\<rparr>
            else async_start c)
       \<and> global_hash_xor (run v e sched (async_start c)) = 0
       \<and> readers (run v e sched (async_start c)) = replicate NUM_READERS RNotCreated
       \<and> consumers (run v e sched (async_start c)) = replicate NUM_CONSUMERS CNotCreated
       \<and> nodes (queue (run v e sched (async_start c))) = []
       \<and> HashXor h \<notin> set (printed (run v e sched (async_start c)))"
  unfolding run_empty_file [OF assms]
  by (simp add: async_start_def init_buffer_queue_def say_def)

theorem empty_file_run_witness:
  "file_size_probe (file_env []) = Some 0
   \<and> run 2 (file_env []) [Consumer 0, Orchestrator, Reader 1, Orchestrator]
        (async_start crc64_start)
       = (async_start crc64_start)\<lparr>printed := [AsyncBanner, FileIsEmpty], orch := ODone\<rparr>
   \<and> global_hash_xor (run 2 (file_env []) [Consumer 0, Orchestrator, Reader 1, Orchestrator]
        (async_start crc64_start)) = 0"
proof -
  have h: "file_size_probe (file_env []) = Some 0" by simp
  from empty_file_run [OF h, of 2 "[Consumer 0, Orchestrator, Reader 1, Orchestrator]"
      crc64_start "0"] h
  show ?thesis by (simp add: say_def async_start_def)
qed

text \<open>C5, as stated, fails: the run on an empty file ends without a report: at the default
  verbosity 1 nothing at all is printed, and at verbosity 2 only the banner and
  ``File is empty''; no digest, no block count.\<close>

theorem empty_file_counterexample:
  "orch (run 1 (file_env []) [Orchestrator] (async_start crc64_start)) = ODone
   \<and> printed (run 1 (file_env []) [Orchestrator] (async_start crc64_start)) = []
   \<and> printed (run 2 (file_env []) [Orchestrator] (async_start crc64_start))
       = [AsyncBanner, FileIsEmpty]"
  by (simp add: run_eval file_env_def)

subsection \<open>Verbosity\<close>

lemma reader_step_verbosity:
  "map_option (\<lambda>s. s\<lparr>printed := []\<rparr>) (reader_step v e i r (s\<lparr>printed := a\<rparr>))
     = map_option (\<lambda>s. s\<lparr>printed := []\<rparr>) (reader_step v' e i r (s\<lparr>printed := b\<rparr>))"
  by (cases r)
    (simp_all add: reader_open_def reader_finish_def reader_after_enqueue_def say_def Let_def
      split: option.split prod.split)

lemma consumer_step_verbosity:
  "map_option (\<lambda>s. s\<lparr>printed := []\<rparr>) (consumer_step v i r (s\<lparr>printed := a\<rparr>))
     = map_option (\<lambda>s. s\<lparr>printed := []\<rparr>) (consumer_step v' i r (s\<lparr>printed := b\<rparr>))"
  by (cases r)
    (simp_all add: process_buffer_data_def say_def Let_def split_beta
      split: option.split prod.split dequeued.split)

lemma orch_step_verbosity:
  "map_option (\<lambda>s. s\<lparr>printed := []\<rparr>) (orch_step v e p (s\<lparr>printed := a\<rparr>))
     = map_option (\<lambda>s. s\<lparr>printed := []\<rparr>) (orch_step v' e p (s\<lparr>printed := b\<rparr>))"
  by (cases p)
    (simp_all add: async_setup_def get_file_size_def async_report_def say_def Let_def
      split: option.split)

lemma step_verbosity:
  "map_option (\<lambda>s. s\<lparr>printed := []\<rparr>) (step v e t (s\<lparr>printed := a\<rparr>))
     = map_option (\<lambda>s. s\<lparr>printed := []\<rparr>) (step v' e t (s\<lparr>printed := b\<rparr>))"
  using reader_step_verbosity [where v = v and v' = v' and s = s and a = a and b = b]
    consumer_step_verbosity [where v = v and v' = v' and s = s and a = a and b = b]
    orch_step_verbosity [where v = v and v' = v' and s = s and a = a and b = b]
  by (cases t) (simp_all add: step_def)

lemma sched_step_verbosity:
  "(sched_step v e t (s\<lparr>printed := a\<rparr>))\<lparr>printed := []\<rparr>
     = (sched_step v' e t (s\<lparr>printed := b\<rparr>))\<lparr>printed := []\<rparr>"
  using step_verbosity [where v = v and v' = v' and s = s and a = a and b = b and t = t and e = e]
  by (cases "step v e t (s\<lparr>printed := a\<rparr>)"; cases "step v' e t (s\<lparr>printed := b\<rparr>)")
    (simp_all add: sched_step_def)

lemma run_verbosity:
  "(run v e sched (s\<lparr>printed := a\<rparr>))\<lparr>printed := []\<rparr>
     = (run v' e sched (s\<lparr>printed := b\<rparr>))\<lparr>printed := []\<rparr>"
proof (induction sched arbitrary: s a b)
  case Nil
  show ?case by (simp add: run_def)
next
  case (Cons t ts)
  let ?s1 = "sched_step v e t (s\<lparr>printed := a\<rparr>)"
  let ?s2 = "sched_step v' e t (s\<lparr>printed := b\<rparr>)"
  have eq: "?s1\<lparr>printed := []\<rparr> = ?s2\<lparr>printed := []\<rparr>" by (rule sched_step_verbosity)
  have 1: "?s1 = (?s1\<lparr>printed := []\<rparr>)\<lparr>printed := printed ?s1\<rparr>" by simp
  have 2: "?s2 = (?s1\<lparr>printed := []\<rparr>)\<lparr>printed := printed ?s2\<rparr>" unfolding eq by simp
  have "(run v e (t # ts) (s\<lparr>printed := a\<rparr>))\<lparr>printed := []\<rparr>
          = (run v e ts ?s1)\<lparr>printed := []\<rparr>"
    by (simp add: run_def)
  also have "\<dots> = (run v e ts ((?s1\<lparr>printed := []\<rparr>)\<lparr>printed := printed ?s1\<rparr>))\<lparr>printed := []\<rparr>"
    using 1 by simp
  also have "\<dots> = (run v' e ts ((?s1\<lparr>printed := []\<rparr>)\<lparr>printed := printed ?s2\<rparr>))\<lparr>printed := []\<rparr>"
    by (rule Cons.IH)
  also have "\<dots> = (run v' e ts ?s2)\<lparr>printed := []\<rparr>"
    using 2 by simp
  also have "\<dots> = (run v' e (t # ts) (s\<lparr>printed := b\<rparr>))\<lparr>printed := []\<rparr>"
    by (simp add: run_def)
  finally show ?case .
qed

text \<open>C10: the verbosity level decides only what is printed. Two runs of the pipeline under
  the same schedule and environment that differ in the verbosity agree on everything but the
  output: the queue, the accumulated digest, the table state and the position of every
  thread; and the digest that \<^verbatim>\<open>process_buffer_data\<close> adds for a block is the same.\<close>

theorem verbosity_gates_output_only:
  "(run v e sched s)\<lparr>printed := []\<rparr> = (run v' e sched s)\<lparr>printed := []\<rparr>
   \<and> global_hash_xor (run v e sched s) = global_hash_xor (run v' e sched s)
   \<and> global_hash_xor (process_buffer_data v buf sz s)
       = global_hash_xor (process_buffer_data v' buf sz s)"
proof -
  have a: "(run v e sched s)\<lparr>printed := []\<rparr> = (run v' e sched s)\<lparr>printed := []\<rparr>"
    using run_verbosity [where v = v and v' = v' and s = s and a = "printed s"
        and b = "printed s" and e = e and sched = sched]
    by simp
  have "global_hash_xor ((run v e sched s)\<lparr>printed := []\<rparr>)
          = global_hash_xor ((run v' e sched s)\<lparr>printed := []\<rparr>)"
    by (simp only: a)
  then have b: "global_hash_xor (run v e sched s) = global_hash_xor (run v' e sched s)"
    by simp
  have c: "global_hash_xor (process_buffer_data v buf sz s)
             = global_hash_xor (process_buffer_data v' buf sz s)"
    by (simp add: process_buffer_data_def split_beta)
  from a b c show ?thesis by blast
qed

subsection \<open>Readers that cannot open the file\<close>

lemma unopenable_env_simps [simp]:
  "file_size_probe (unopenable_env file) = Some (length file)"
  "consumer_create_ok (unopenable_env file) i" "reader_create_ok (unopenable_env file) i"
  "\<not> reader_fopen_ok (unopenable_env file) i"
  by (simp_all add: unopenable_env_def file_env_def)

lemma orch_step_stuck:
  assumes "stuck_inv s" and "orch_step v (unopenable_env file) (orch s) s = Some s'"
    and "0 < length file"
  shows "stuck_inv s'"
proof (cases "orch s")
  case OStart
  with assms show ?thesis
    by (auto simp: stuck_inv_def async_setup_def get_file_size_def init_buffer_queue_def)
next
  case (OSpawnConsumer k)
  with assms show ?thesis
    by (auto simp: stuck_inv_def split: if_splits dest!: in_set_updateD)
next
  case OSetActive
  with assms show ?thesis by (auto simp: stuck_inv_def)
next
  case (OSpawnReader k)
  with assms show ?thesis
    by (auto simp: stuck_inv_def split: if_splits dest!: in_set_updateD)
next
  case (OJoinReader k)
  with assms show ?thesis by (auto simp: stuck_inv_def split: if_splits)
next
  case (OWake k)
  with assms show ?thesis by (auto simp: stuck_inv_def split: if_splits)
next
  case (OJoinConsumer k)
  with assms(1) have k: "k = 0" and n: "CDone \<notin> set (consumers s)"
    and l: "length (consumers s) = NUM_CONSUMERS"
    by (simp_all add: stuck_inv_def)
  have "consumers s ! 0 \<in> set (consumers s)"
    using l num_consumers_pos by (intro nth_mem) simp
  with n have "consumers s ! 0 \<noteq> CDone" by metis
  with OJoinConsumer k assms(2) num_consumers_pos show ?thesis by simp
next
  case OReport
  with assms(1) show ?thesis by (simp add: stuck_inv_def)
next
  case ODone
  with assms(2) show ?thesis by simp
qed

lemma reader_step_stuck:
  assumes "stuck_inv s" and "i < length (readers s)"
    and "reader_step v (unopenable_env file) i (readers s ! i) s = Some s'"
  shows "stuck_inv s'"
proof -
  from assms(1,2) have "readers s ! i = RNotCreated \<or> readers s ! i = RStart
      \<or> readers s ! i = RDone"
    by (simp add: stuck_inv_def)
  with assms(3) have r: "readers s ! i = RStart" by auto
  with assms(1,3) show ?thesis
    by (auto simp: stuck_inv_def reader_open_def dest!: in_set_updateD)
qed

lemma consumer_step_stuck:
  assumes "stuck_inv s" and "i < length (consumers s)"
    and "consumer_step v i (consumers s ! i) s = Some s'"
  shows "stuck_inv s'"
proof -
  note f = consumer_step_frame [OF assms(3)]
  from f obtain c' where c': "consumers s' = (consumers s)[i := c']" by blast
  have nd: "\<not> reading_done (queue s)" using assms(1) by (simp add: stuck_inv_def)
  have "c' \<noteq> CDone"
  proof
    assume "c' = CDone"
    with c' assms(2) have "consumers s' ! i = CDone" by simp
    from consumer_step_new_done [OF assms(3) this assms(2)] nd show False by simp
  qed
  with assms(1) f c' show ?thesis
    by (auto simp: stuck_inv_def dest!: in_set_updateD)
qed

lemma run_stuck:
  assumes "stuck_inv s" and "0 < length file"
  shows "stuck_inv (run v (unopenable_env file) sched s)"
  using assms(1)
proof (induction sched arbitrary: s)
  case Nil
  then show ?case by (simp add: run_def)
next
  case (Cons t ts)
  have "stuck_inv (sched_step v (unopenable_env file) t s)"
  proof (cases "step v (unopenable_env file) t s")
    case None
    with Cons.prems show ?thesis by (simp add: sched_step_def)
  next
    case (Some s')
    have "stuck_inv s'"
    proof (cases t)
      case Orchestrator
      with Some have "orch_step v (unopenable_env file) (orch s) s = Some s'"
        by (simp add: step_def)
      from orch_step_stuck [OF Cons.prems this assms(2)] show ?thesis .
    next
      case (Reader i)
      with Some have i: "i < length (readers s)"
        and r: "reader_step v (unopenable_env file) i (readers s ! i) s = Some s'"
        by (simp_all add: step_def split: if_splits)
      from reader_step_stuck [OF Cons.prems i r] show ?thesis .
    next
      case (Consumer i)
      with Some have i: "i < length (consumers s)"
        and r: "consumer_step v i (consumers s ! i) s = Some s'"
        by (simp_all add: step_def split: if_splits)
      from consumer_step_stuck [OF Cons.prems i r] show ?thesis .
    qed
    with Some show ?thesis by (simp add: sched_step_def)
  qed
  from Cons.IH [OF this] show ?case by (simp add: run_def)
qed

text \<open>C3 fails on the code. On the two early exits of \<^verbatim>\<open>reader_thread\<close> (the file does not
  open, the buffer is not allocated) \<^verbatim>\<open>active_readers\<close> is decremented but
  \<^verbatim>\<open>reading_done\<close> is not set when the count reaches zero, as it is at the normal exit.
  For a one-byte file that no reader can open: after the four readers have left,
  \<^verbatim>\<open>active_readers\<close> is 0 and \<^verbatim>\<open>reading_done\<close> is still false; and in no interleaving
  at all does \<^verbatim>\<open>reading_done\<close> become true or \<^verbatim>\<open>async_sequential_read\<close> reach its
  end.\<close>

theorem unopenable_file_never_done:
  "active_readers (queue (run 1 (unopenable_env [0]) readers_open_schedule
      (async_start crc64_start))) = 0
   \<and> readers (run 1 (unopenable_env [0]) readers_open_schedule (async_start crc64_start))
       = [RDone, RDone, RDone, RDone]
   \<and> \<not> reading_done (queue (run 1 (unopenable_env [0]) readers_open_schedule
      (async_start crc64_start)))
   \<and> \<not> reading_done (queue (run v (unopenable_env [0]) sched (async_start c)))
   \<and> orch (run v (unopenable_env [0]) sched (async_start c)) \<noteq> ODone"
proof -
  have s: "stuck_inv (async_start c)"
    by (simp add: stuck_inv_def async_start_def init_buffer_queue_def)
  have "stuck_inv (run v (unopenable_env [0]) sched (async_start c))"
    by (rule run_stuck [OF s]) simp
  then have g: "\<not> reading_done (queue (run v (unopenable_env [0]) sched (async_start c)))
      \<and> orch (run v (unopenable_env [0]) sched (async_start c)) \<noteq> ODone"
    by (simp add: stuck_inv_def)
  have e: "active_readers (queue (run 1 (unopenable_env [0]) readers_open_schedule
      (async_start crc64_start))) = 0
   \<and> readers (run 1 (unopenable_env [0]) readers_open_schedule (async_start crc64_start))
       = [RDone, RDone, RDone, RDone]
   \<and> \<not> reading_done (queue (run 1 (unopenable_env [0]) readers_open_schedule
      (async_start crc64_start)))"
    by (simp add: run_eval unopenable_env_def file_env_def readers_open_schedule_def)
  from g e show ?thesis by blast
qed

subsection \<open>Block claims\<close>

lemma reservation_Some:
  "reservation t s = Some r \<Longrightarrow>
   \<exists>i tb. t = Reader i \<and> i < length (readers s) \<and> readers s ! i = RClaim tb
     \<and> r = fst (reserve_next_block (queue s))"
  by (auto simp: reservation_def split: tid.splits if_splits reader_pc.splits)

lemma reservation_None_reader:
  "reservation (Reader i) s = None \<Longrightarrow> i < length (readers s) \<Longrightarrow>
   \<forall>tb. readers s ! i \<noteq> RClaim tb"
  by (auto simp: reservation_def split: reader_pc.splits)

lemma orch_step_next_block:
  "orch_step v e p s = Some s' \<Longrightarrow> p \<noteq> OStart \<Longrightarrow>
   next_block (queue s') = next_block (queue s)"
  by (cases p) (auto simp: async_report_def split: if_splits)

lemma reader_step_next_block:
  "reader_step v e i r s = Some s' \<Longrightarrow> \<forall>tb. r \<noteq> RClaim tb \<Longrightarrow>
   next_block (queue s') = next_block (queue s)"
  by (cases r)
    (auto simp: reader_open_def reader_finish_def reader_after_enqueue_def enqueue_locked_def
      Let_def split: if_splits option.splits)

lemma step_next_block:
  assumes "main_inv file s" and "reservation t s = None" and "step v e t s = Some s'"
  shows "next_block (queue s') = next_block (queue s)"
proof (cases t)
  case Orchestrator
  with assms(3) have "orch_step v e (orch s) s = Some s'" by (simp add: step_def)
  from orch_step_next_block [OF this] assms(1) show ?thesis by (simp add: main_inv_def)
next
  case (Reader i)
  with assms(3) have i: "i < length (readers s)"
    and r: "reader_step v e i (readers s ! i) s = Some s'"
    by (simp_all add: step_def split: if_splits)
  from reader_step_next_block [OF r] reservation_None_reader [OF _ i] assms(2) Reader
  show ?thesis by simp
next
  case (Consumer i)
  with assms(3) have "consumer_step v i (consumers s ! i) s = Some s'"
    by (simp add: step_def split: if_splits)
  from consumer_step_frame [OF this] show ?thesis by simp
qed

lemma reservation_async_start: "reservation t (async_start c) = None"
  by (cases t) (simp_all add: reservation_def async_start_def)

lemma sched_step_no_reservation:
  assumes "pipeline_inv c file s" and "reservation t s = None"
    and "0 < length file" and "length file + BLOCK_SIZE \<le> 2 ^ 64"
  shows "next_block (queue (sched_step v (file_env file) t s)) = next_block (queue s)"
proof (cases "s = async_start c")
  case True
  then show ?thesis
    by (simp add: sched_step_def step_async_start async_setup_file_env [OF assms(3,4)])
      (simp add: async_start_def init_buffer_queue_def)
next
  case False
  with assms(1) have m: "main_inv file s" by (simp add: pipeline_inv_def)
  show ?thesis
  proof (cases "step v (file_env file) t s")
    case None
    then show ?thesis by (simp add: sched_step_def)
  next
    case (Some s')
    from step_next_block [OF m assms(2) Some] Some show ?thesis
      by (simp add: sched_step_def)
  qed
qed

lemma sched_step_reservation:
  assumes "pipeline_inv c file s" and "reservation t s = Some r"
    and "length file + BLOCK_SIZE \<le> 2 ^ 64"
  shows "(if next_block (queue s) = num_blocks file
          then r = None
             \<and> next_block (queue (sched_step v (file_env file) t s)) = next_block (queue s)
          else r = Some (next_block (queue s))
             \<and> next_block (queue (sched_step v (file_env file) t s))
                 = Suc (next_block (queue s)))"
proof -
  from reservation_Some [OF assms(2)] obtain i tb
    where t: "t = Reader i" and i: "i < length (readers s)"
      and pc: "readers s ! i = RClaim tb" and r: "r = fst (reserve_next_block (queue s))"
    by blast
  have "s \<noteq> async_start c"
    using assms(2) by (auto simp: reservation_async_start)
  with assms(1) have "main_inv file s" by (simp add: pipeline_inv_def)
  then have st: "inv_static file s" by (simp add: main_inv_def)
  then have tb: "total_blocks (queue s) = num_blocks file" by (simp add: inv_static_def)
  note rn = reserve_next_block_file [OF st assms(3)]
  show ?thesis
    using t i pc r tb by (simp add: sched_step_def step_def rn)
qed

lemma pipeline_inv_next_block:
  "pipeline_inv c file s \<Longrightarrow> next_block (queue s) \<le> num_blocks file"
  by (auto simp: pipeline_inv_def main_inv_def inv_static_def async_start_def
      init_buffer_queue_def)

lemma reservations_shape:
  assumes "crc64_ok c" and "0 < length file" and "length file + BLOCK_SIZE \<le> 2 ^ 64"
    and "pipeline_inv c file s"
  shows "\<exists>m. reservations v (file_env file) sched s
             = map Some [next_block (queue s)..<next_block (queue (run v (file_env file) sched s))]
               @ replicate m None
           \<and> next_block (queue s) \<le> next_block (queue (run v (file_env file) sched s))
           \<and> (0 < m \<longrightarrow> next_block (queue (run v (file_env file) sched s)) = num_blocks file)"
  using assms(4)
proof (induction sched arbitrary: s)
  case Nil
  show ?case by (simp add: run_def)
next
  case (Cons t ts)
  let ?s1 = "sched_step v (file_env file) t s"
  let ?f = "run v (file_env file) ts ?s1"
  have p1: "pipeline_inv c file ?s1"
    by (rule sched_step_pipeline_inv [OF Cons.prems assms(1-3)])
  have pf: "pipeline_inv c file ?f"
    by (rule run_pipeline_inv [OF p1 assms(1-3)])
  have rf: "run v (file_env file) (t # ts) s = ?f" by (simp add: run_def)
  from Cons.IH [OF p1] obtain m
    where tr: "reservations v (file_env file) ts ?s1
                 = map Some [next_block (queue ?s1)..<next_block (queue ?f)] @ replicate m None"
      and le: "next_block (queue ?s1) \<le> next_block (queue ?f)"
      and fin: "0 < m \<longrightarrow> next_block (queue ?f) = num_blocks file"
    by blast
  have bound: "next_block (queue ?f) \<le> num_blocks file"
    by (rule pipeline_inv_next_block [OF pf])
  show ?case
  proof (cases "reservation t s")
    case None
    have "next_block (queue ?s1) = next_block (queue s)"
      by (rule sched_step_no_reservation [OF Cons.prems None assms(2,3)])
    with None tr le fin show ?thesis
      unfolding rf by (intro exI [of _ m]) simp
  next
    case (Some r)
    note sr = sched_step_reservation [OF Cons.prems Some assms(3), of v]
    show ?thesis
    proof (cases "next_block (queue s) = num_blocks file")
      case True
      with sr have r: "r = None" and n1: "next_block (queue ?s1) = next_block (queue s)"
        by simp_all
      from n1 le bound True have e: "next_block (queue ?f) = next_block (queue s)" by simp
      have "reservations v (file_env file) (t # ts) s
              = map Some [next_block (queue s)..<next_block (queue ?f)]
                @ replicate (Suc m) None"
        using Some r tr n1 e by simp
      with e True show ?thesis
        unfolding rf by (intro exI [of _ "Suc m"]) simp
    next
      case False
      with sr have r: "r = Some (next_block (queue s))"
        and n1: "next_block (queue ?s1) = Suc (next_block (queue s))"
        by simp_all
      from n1 le have lt: "next_block (queue s) < next_block (queue ?f)" by simp
      have "reservations v (file_env file) (t # ts) s
              = map Some [next_block (queue s)..<next_block (queue ?f)] @ replicate m None"
        using Some r tr n1 lt by (simp add: upt_conv_Cons)
      with lt fin show ?thesis
        unfolding rf by (intro exI [of _ m]) simp
    qed
  qed
qed

text \<open>C8: in a run without failures, the claims made by all readers together, in the order
  in which they are made, return \<open>0, 1, 2, \<dots>\<close> without gap or repetition, then only the
  empty result, which starts only after every index below the block count has been returned;
  and when \<^verbatim>\<open>async_sequential_read\<close> has reached its end, every index below the block
  count has been returned exactly once.\<close>

theorem reservations_complete:
  assumes "crc64_ok c" and "0 < length file" and "length file + BLOCK_SIZE \<le> 2 ^ 64"
  shows "\<exists>n m. reservations v (file_env file) sched (async_start c)
                 = map Some [0..<n] @ replicate m None
             \<and> n = next_block (queue (run v (file_env file) sched (async_start c)))
             \<and> n \<le> num_blocks file
             \<and> (0 < m \<longrightarrow> n = num_blocks file)
             \<and> (orch (run v (file_env file) sched (async_start c)) = ODone
                  \<longrightarrow> n = num_blocks file)"
proof -
  let ?f = "run v (file_env file) sched (async_start c)"
  have p0: "pipeline_inv c file (async_start c)" by (simp add: pipeline_inv_def)
  have pf: "pipeline_inv c file ?f" by (rule run_pipeline_inv [OF p0 assms])
  have z: "next_block (queue (async_start c)) = 0"
    by (simp add: async_start_def init_buffer_queue_def)
  from reservations_shape [OF assms p0, of v sched] obtain m
    where tr: "reservations v (file_env file) sched (async_start c)
                 = map Some [0..<next_block (queue ?f)] @ replicate m None"
      and fin: "0 < m \<longrightarrow> next_block (queue ?f) = num_blocks file"
    unfolding z by blast
  have bound: "next_block (queue ?f) \<le> num_blocks file"
    by (rule pipeline_inv_next_block [OF pf])
  have dn: "next_block (queue ?f) = num_blocks file" if d: "orch ?f = ODone"
  proof -
    have "?f \<noteq> async_start c" using d by (auto simp: async_start_def)
    with pf have m: "main_inv file ?f" by (simp add: pipeline_inv_def)
    from all_done_readers [OF m d] m show ?thesis
      by (simp add: main_inv_def inv_static_def)
  qed
  from tr fin bound dn show ?thesis by blast
qed

theorem reservations_complete_witness:
  "crc64_ok crc64_start \<and> 0 < length (replicate 16777217 (0::byte))
   \<and> length (replicate 16777217 (0::byte)) + BLOCK_SIZE \<le> 2 ^ 64
   \<and> orch (run 1 (file_env (replicate 16777217 0)) two_block_schedule
        (async_start crc64_start)) = ODone
   \<and> reservations 1 (file_env (replicate 16777217 0)) two_block_schedule
        (async_start crc64_start) = [Some 0, Some 1, None, None, None, None]
   \<and> (\<exists>m. reservations 1 (file_env (replicate 16777217 0)) two_block_schedule
          (async_start crc64_start)
        = map Some [0..<num_blocks (replicate 16777217 0)] @ replicate m None)"
proof -
  have h1: "crc64_ok crc64_start" by (rule crc64_ok_start)
  have h2: "0 < length (replicate 16777217 (0::byte))" by simp
  have h3: "length (replicate 16777217 (0::byte)) + BLOCK_SIZE \<le> 2 ^ 64"
    by (simp add: BLOCK_SIZE_def)
  note h4 = two_block_schedule_ends
  have tr: "reservations 1 (file_env (replicate 16777217 0)) two_block_schedule
        (async_start crc64_start) = [Some 0, Some 1, None, None, None, None]"
    by (simp add: reservation_def run_eval file_env_def two_block_schedule_def)
  from reservations_complete [OF h1 h2 h3, of 1 two_block_schedule] h4
  have "\<exists>m. reservations 1 (file_env (replicate 16777217 0)) two_block_schedule
          (async_start crc64_start)
        = map Some [0..<num_blocks (replicate 16777217 0)] @ replicate m None"
    by auto
  with h1 h2 h3 h4 tr show ?thesis by blast
qed

subsection \<open>A file of one block and one byte\<close>

lemma crc64_table_spec_nth:
  "i < 256 \<Longrightarrow>
   crc64_table_spec ! i = (crc64_shift_xor 0x42F0E1EBA9EA3693 ^^ 8) (of_nat i)"
  by (simp add: crc64_table_spec_def del: upt_Suc)

lemma funpow_8: "(f ^^ 8) x = f (f (f (f (f (f (f (f x)))))))"
  by (simp add: numeral_eq_Suc funpow_swap1)

lemma crc64_table_spec_0: "crc64_table_spec ! 0 = 0"
  using crc64_table_spec_nth [of 0] by (simp add: funpow_8 crc64_shift_xor_def)

lemma crc64_table_spec_1: "crc64_table_spec ! Suc 0 = 0x3C3B78E888D80FE1"
  using crc64_table_spec_nth [of 1] by (simp add: funpow_8 crc64_shift_xor_def)

lemma crc64_table_spec_2: "crc64_table_spec ! 2 = 0x7876F1D111B01FC2"
  using crc64_table_spec_nth [of 2] by (simp add: funpow_8 crc64_shift_xor_def)

lemma crc64_digest_zeros: "crc64_digest (replicate n 0 @ xs) = crc64_digest xs"
proof -
  have "fold (crc64_byte_step crc64_table_spec) (replicate n 0) 0 = 0"
    by (induction n) (simp_all add: crc64_byte_step_def crc64_table_spec_0)
  then show ?thesis by (simp add: crc64_digest_def)
qed

lemma crc64_digest_1: "crc64_digest [1] = 0x3C3B78E888D80FE1"
  by (simp add: crc64_digest_def crc64_byte_step_def crc64_table_spec_1)

lemma crc64_digest_2: "crc64_digest [2] = 0x7876F1D111B01FC2"
  by (simp add: crc64_digest_def crc64_byte_step_def crc64_table_spec_2)

lemma orch_run_verbosity: "orch (run v e sched s) = orch (run v' e sched s)"
proof -
  have "(run v e sched (s\<lparr>printed := printed s\<rparr>))\<lparr>printed := []\<rparr>
          = (run v' e sched (s\<lparr>printed := printed s\<rparr>))\<lparr>printed := []\<rparr>"
    by (rule run_verbosity)
  then have "orch ((run v e sched s)\<lparr>printed := []\<rparr>)
          = orch ((run v' e sched s)\<lparr>printed := []\<rparr>)"
    by simp
  then show ?thesis by simp
qed

lemma queue_run_verbosity: "queue (run v e sched s) = queue (run v' e sched s)"
proof -
  have "(run v e sched (s\<lparr>printed := printed s\<rparr>))\<lparr>printed := []\<rparr>
          = (run v' e sched (s\<lparr>printed := printed s\<rparr>))\<lparr>printed := []\<rparr>"
    by (rule run_verbosity)
  then have "queue ((run v e sched s)\<lparr>printed := []\<rparr>)
          = queue ((run v' e sched s)\<lparr>printed := []\<rparr>)"
    by simp
  then show ?thesis by simp
qed

lemma two_block_schedule_any_file:
  assumes "length file = BLOCK_SIZE + 1"
  shows "orch (run v (file_env file) two_block_schedule (async_start c)) = ODone"
    and "nodes (queue (run v (file_env file) (take 22 two_block_schedule) (async_start c)))
           = [take BLOCK_SIZE file, drop BLOCK_SIZE file]"
proof -
  have l: "length file = 16777217" using assms by (simp add: BLOCK_SIZE_def)
  have "orch (run 0 (file_env file) two_block_schedule (async_start c)) = ODone"
    by (simp add: run_eval file_env_def two_block_schedule_def l)
  then show "orch (run v (file_env file) two_block_schedule (async_start c)) = ODone"
    using orch_run_verbosity [of v _ _ _ 0] by simp
  have "nodes (queue (run 0 (file_env file) (take 22 two_block_schedule) (async_start c)))
          = [take BLOCK_SIZE file, drop BLOCK_SIZE file]"
    by (simp add: run_eval file_env_def two_block_schedule_def l)
  then show "nodes (queue (run v (file_env file) (take 22 two_block_schedule) (async_start c)))
           = [take BLOCK_SIZE file, drop BLOCK_SIZE file]"
    using queue_run_verbosity [of v _ _ _ 0] by simp
qed

lemma crossed_schedule_any_file:
  assumes "length file = BLOCK_SIZE + 1"
  shows "orch (run v (file_env file) crossed_schedule (async_start c)) = ODone"
    and "nodes (queue (run v (file_env file) (take 24 crossed_schedule) (async_start c)))
           = [drop BLOCK_SIZE file, take BLOCK_SIZE file]"
proof -
  have l: "length file = 16777217" using assms by (simp add: BLOCK_SIZE_def)
  have "orch (run 0 (file_env file) crossed_schedule (async_start c)) = ODone"
    by (simp add: run_eval file_env_def crossed_schedule_def l)
  then show "orch (run v (file_env file) crossed_schedule (async_start c)) = ODone"
    using orch_run_verbosity [of v _ _ _ 0] by simp
  have "nodes (queue (run 0 (file_env file) (take 24 crossed_schedule) (async_start c)))
          = [drop BLOCK_SIZE file, take BLOCK_SIZE file]"
    by (simp add: run_eval file_env_def crossed_schedule_def l)
  then show "nodes (queue (run v (file_env file) (take 24 crossed_schedule) (async_start c)))
           = [drop BLOCK_SIZE file, take BLOCK_SIZE file]"
    using queue_run_verbosity [of v _ _ _ 0] by simp
qed

text \<open>C7: for a file of block length + 1 bytes the block count computed by
  \<^verbatim>\<open>async_sequential_read\<close> is 2, block 1 starts at the block length and is one byte long,
  and in every interleaving that reaches the end of \<^verbatim>\<open>async_sequential_read\<close> the
  accumulated digest is the XOR of the CRC64 digests of the two blocks, whichever readers and
  consumers handled them and in whichever order, and it is the digest printed (at verbosity 1
  and above). Interleavings that reach the end exist for every such file: one in which
  reader 0 enqueues block 0 then block 1 and consumer 0 processes both, and one in which
  readers 1 and 0 enqueue block 1 then block 0 and consumers 3 and 2 process block 0 then
  block 1.\<close>

theorem block_plus_one_digest:
  assumes "length file = BLOCK_SIZE + 1" and "crc64_ok c"
  shows "total_blocks (queue (async_setup v (file_env file) (async_start c))) = 2
       \<and> block_offset 1 = BLOCK_SIZE
       \<and> block_bytes_to_read (length file) 1 = 1
       \<and> read_block (file_env file) (length file) 0 = Some (take BLOCK_SIZE file)
       \<and> read_block (file_env file) (length file) 1 = Some (drop BLOCK_SIZE file)
       \<and> fst (crc64_compute c (take BLOCK_SIZE file) BLOCK_SIZE)
           = crc64_digest (take BLOCK_SIZE file)
       \<and> fst (crc64_compute c (drop BLOCK_SIZE file) 1) = crc64_digest (drop BLOCK_SIZE file)
       \<and> orch (run v (file_env file) two_block_schedule (async_start c)) = ODone
       \<and> nodes (queue (run v (file_env file) (take 22 two_block_schedule) (async_start c)))
           = [take BLOCK_SIZE file, drop BLOCK_SIZE file]
       \<and> orch (run v (file_env file) crossed_schedule (async_start c)) = ODone
       \<and> nodes (queue (run v (file_env file) (take 24 crossed_schedule) (async_start c)))
           = [drop BLOCK_SIZE file, take BLOCK_SIZE file]
       \<and> (orch (run v (file_env file) sched (async_start c)) = ODone \<longrightarrow>
            global_hash_xor (run v (file_env file) sched (async_start c))
              = crc64_digest (take BLOCK_SIZE file) XOR crc64_digest (drop BLOCK_SIZE file)
            \<and> (1 \<le> v \<longrightarrow>
                 HashXor (crc64_digest (take BLOCK_SIZE file)
                          XOR crc64_digest (drop BLOCK_SIZE file))
                   \<in> set (printed (run v (file_env file) sched (async_start c)))))"
proof -
  have pos: "0 < length file" and fits: "length file + BLOCK_SIZE \<le> 2 ^ 64"
    using assms(1) by (simp_all add: BLOCK_SIZE_def)
  note blocks = block_plus_one_blocks [OF assms(1)]
  have a: "total_blocks (queue (async_setup v (file_env file) (async_start c))) = 2"
    by (simp add: async_setup_file_env [OF pos fits] blocks)
  have b: "block_offset 1 = BLOCK_SIZE"
    by (simp add: block_offset_def size_t_def BLOCK_SIZE_def)
  have c1: "block_bytes_to_read (length file) 1 = 1"
    using assms(1)
    by (simp add: block_bytes_to_read_def block_offset_def size_t_def size_t_sub_def
        BLOCK_SIZE_def)
  have r0: "read_block (file_env file) (length file) 0 = Some (take BLOCK_SIZE file)"
    using read_block_file_env [of 0 "file", OF _ fits] blocks by simp
  have r1: "read_block (file_env file) (length file) 1 = Some (drop BLOCK_SIZE file)"
    using read_block_file_env [of 1 "file", OF _ fits] blocks by simp
  have d0: "fst (crc64_compute c (take BLOCK_SIZE file) BLOCK_SIZE)
              = crc64_digest (take BLOCK_SIZE file)"
    using crc64_compute_digest [OF assms(2), of BLOCK_SIZE "take BLOCK_SIZE file"] assms(1)
    by simp
  have d1: "fst (crc64_compute c (drop BLOCK_SIZE file) 1) = crc64_digest (drop BLOCK_SIZE file)"
    using crc64_compute_digest [OF assms(2), of 1 "drop BLOCK_SIZE file"] assms(1)
    by simp
  note t = two_block_schedule_any_file [OF assms(1), of v c]
  note x = crossed_schedule_any_file [OF assms(1), of v c]
  have fd: "file_digest file
              = crc64_digest (take BLOCK_SIZE file) XOR crc64_digest (drop BLOCK_SIZE file)"
  proof -
    have u: "[0..<2] = [0, Suc 0]" by (simp add: upt_rec)
    show ?thesis by (simp add: file_digest_def blocks u)
  qed
  have e: "global_hash_xor (run v (file_env file) sched (async_start c))
             = crc64_digest (take BLOCK_SIZE file) XOR crc64_digest (drop BLOCK_SIZE file)"
    if "orch (run v (file_env file) sched (async_start c)) = ODone"
    using run_final_hash [OF assms(2) pos fits that]
    unfolding fd .
  have f: "HashXor (crc64_digest (take BLOCK_SIZE file) XOR crc64_digest (drop BLOCK_SIZE file))
             \<in> set (printed (run v (file_env file) sched (async_start c)))"
    if "orch (run v (file_env file) sched (async_start c)) = ODone" and "1 \<le> v"
    using run_final_report [OF assms(2) pos fits that]
    unfolding fd .
  from a b c1 r0 r1 d0 d1 t x e f show ?thesis by blast
qed

theorem block_plus_one_digest_witness:
  "length (replicate 16777215 (0::byte) @ [2, 1]) = BLOCK_SIZE + 1 \<and> crc64_ok crc64_start
   \<and> crc64_digest (take BLOCK_SIZE (replicate 16777215 0 @ [2, 1])) = 0x7876F1D111B01FC2
   \<and> crc64_digest (drop BLOCK_SIZE (replicate 16777215 0 @ [2, 1])) = 0x3C3B78E888D80FE1
   \<and> orch (run 1 (file_env (replicate 16777215 0 @ [2, 1])) crossed_schedule
        (async_start crc64_start)) = ODone
   \<and> global_hash_xor (run 1 (file_env (replicate 16777215 0 @ [2, 1])) crossed_schedule
        (async_start crc64_start)) = 0x444D893999681023
   \<and> global_hash_xor (run 1 (file_env (replicate 16777215 0 @ [2, 1])) two_block_schedule
        (async_start crc64_start)) = 0x444D893999681023
   \<and> HashXor 0x444D893999681023
       \<in> set (printed (run 1 (file_env (replicate 16777215 0 @ [2, 1])) crossed_schedule
            (async_start crc64_start)))"
proof -
  let ?F = "replicate 16777215 (0::byte) @ [2, 1]"
  have h1: "length ?F = BLOCK_SIZE + 1" by (simp add: BLOCK_SIZE_def)
  have h2: "crc64_ok crc64_start" by (rule crc64_ok_start)
  have h3: "(1::int) \<le> 1" by simp
  have b0: "take BLOCK_SIZE ?F = replicate 16777215 0 @ [2]"
    by (simp add: BLOCK_SIZE_def)
  have b1: "drop BLOCK_SIZE ?F = [1]"
    by (simp add: BLOCK_SIZE_def)
  have g0: "crc64_digest (take BLOCK_SIZE ?F) = 0x7876F1D111B01FC2"
    unfolding b0 crc64_digest_zeros by (rule crc64_digest_2)
  have g1: "crc64_digest (drop BLOCK_SIZE ?F) = 0x3C3B78E888D80FE1"
    unfolding b1 by (rule crc64_digest_1)
  have x: "(0x7876F1D111B01FC2 :: u64) XOR 0x3C3B78E888D80FE1 = 0x444D893999681023"
    by simp
  note t1 = block_plus_one_digest [OF h1 h2, of 1 crossed_schedule]
  note t2 = block_plus_one_digest [OF h1 h2, of 1 two_block_schedule]
  from t1 have e1: "orch (run 1 (file_env ?F) crossed_schedule (async_start crc64_start)) = ODone"
    by blast
  from t1 have e2: "orch (run 1 (file_env ?F) two_block_schedule (async_start crc64_start)) = ODone"
    by blast
  from t1 e1 h3 have r1: "global_hash_xor (run 1 (file_env ?F) crossed_schedule
        (async_start crc64_start)) = 0x444D893999681023"
    and p1: "HashXor 0x444D893999681023
       \<in> set (printed (run 1 (file_env ?F) crossed_schedule (async_start crc64_start)))"
    unfolding g0 g1 x by blast+
  from t2 e2 have r2: "global_hash_xor (run 1 (file_env ?F) two_block_schedule
        (async_start crc64_start)) = 0x444D893999681023"
    unfolding g0 g1 x by blast
  from h1 h2 g0 g1 e1 r1 r2 p1 show ?thesis by blast
qed

subsection \<open>Tokens for the waiting consumers\<close>

lemma isum_update:
  "i < length xs \<Longrightarrow>
   sum_list (map f (xs[i := y])) = sum_list (map f xs) - f (xs ! i) + (f y :: int)"
proof (induction xs arbitrary: i)
  case Nil
  then show ?case by simp
next
  case (Cons x xs)
  then show ?case by (cases i) simp_all
qed

lemma isum_le:
  "(\<And>x. g x \<le> (f x :: int)) \<Longrightarrow> sum_list (map g xs) \<le> sum_list (map f xs)"
  by (induction xs) (simp_all add: add_mono)

lemma isum_update_le:
  assumes "i < length xs" and "\<And>x. g x \<le> (f x :: int)"
  shows "sum_list (map g (xs[i := y])) \<le> sum_list (map f xs) - f (xs ! i) + g y"
  using assms(1)
proof (induction xs arbitrary: i)
  case Nil
  then show ?case by simp
next
  case (Cons x xs)
  show ?case
  proof (cases i)
    case 0
    with isum_le [of g f xs] assms(2) show ?thesis by simp
  next
    case (Suc j)
    with Cons.prems have "j < length xs" by simp
    from Cons.IH [OF this] Suc assms(2) [of x] show ?thesis by simp
  qed
qed

lemma needs_token_update [simp]:
  "needs_token (q\<lparr>nodes := a\<rparr>) = needs_token q"
  "needs_token (q\<lparr>empty_slots := b\<rparr>) = needs_token q"
  "needs_token (q\<lparr>full_slots := d\<rparr>) = needs_token q"
  "needs_token (q\<lparr>next_block := f\<rparr>) = needs_token q"
  by (simp_all add: needs_token_def fun_eq_iff)

lemma needs_token_not_done:
  "\<not> reading_done q \<Longrightarrow> needs_token q c = (if c = CDone then 0 else 1)"
  by (simp add: needs_token_def)

lemma needs_token_le:
  "(reading_done q \<and> active_readers q = 0 \<and> qcount q = 0
     \<longrightarrow> reading_done q' \<and> active_readers q' = 0 \<and> qcount q' = 0)
   \<Longrightarrow> needs_token q' c \<le> needs_token q c"
  by (auto simp: needs_token_def)

lemma needs_token_bounds: "0 \<le> needs_token q c" "needs_token q c \<le> 1"
  by (simp_all add: needs_token_def)

lemma reader_step_token_inv:
  assumes "main_inv file s" and "token_inv s" and "i < length (readers s)"
    and "reader_step v (file_env file) i (readers s ! i) s = Some s'"
    and "length file + BLOCK_SIZE \<le> 2 ^ 64"
  shows "token_inv s'"
proof -
  have st: "inv_static file s" and ia: "inv_active s"
    and rv: "reader_valid (queue s) (readers s ! i)"
    using assms(1,3) by (simp_all add: main_inv_def reader_valid_nth)
  note r = reserve_next_block_file [OF st assms(5)]
  have en: "readers s ! i \<noteq> RDone"
    using reader_step_enabled [OF assms(4)] by simp
  have nd: "\<not> reading_done (queue s)"
  proof
    assume "reading_done (queue s)"
    with ia have "live_readers (readers s) = 0" by (simp add: inv_active_def)
    from live_readers_zero [OF this nth_mem [OF assms(3)]] en show False by simp
  qed
  note t = assms(2) [unfolded token_inv_def]
  show ?thesis
  proof (cases "readers s ! i")
    case RStart
    with assms(3,4) t show ?thesis
      by (auto simp: token_inv_def reader_open_def file_env_def isum_update)
  next
    case (RClaim tb)
    with assms(3,4) t show ?thesis
      by (auto simp: token_inv_def r isum_update split: if_splits)
  next
    case (RRead tb k)
    with assms(3,4) t show ?thesis
      by (auto simp: token_inv_def isum_update split: option.splits)
  next
    case (REnqWait tb k buf)
    with assms(3,4) t show ?thesis
      by (auto simp: token_inv_def isum_update split: option.splits)
  next
    case (REnqLocked tb k buf)
    have n: "needs_token (queue s\<lparr>nodes := a, qcount := b\<rparr>) = needs_token (queue s)"
      for a b using nd by (simp add: needs_token_def fun_eq_iff)
    from REnqLocked assms(3,4) t show ?thesis
      by (auto simp: token_inv_def enqueue_locked_def file_env_def isum_update n)
  next
    case (REnqPostFull tb k buf)
    with assms(3,4) t show ?thesis
      by (auto simp: token_inv_def reader_after_enqueue_def sem_post_def isum_update)
  next
    case (REnqPostEmpty tb k buf)
    with rv show ?thesis by simp
  next
    case (RFinish tb)
    have s': "s' = reader_finish v i tb s"
      using RFinish assms(4) by simp
    have q: "qcount (queue s') = qcount (queue s)"
      "full_slots (queue s') = full_slots (queue s)"
      "consumers s' = consumers s" "orch s' = orch s"
      "readers s' = (readers s)[i := RDone]"
      by (simp_all add: s' reader_finish_def Let_def)
    have le: "needs_token (queue s') c \<le> needs_token (queue s) c" for c
      using nd by (intro needs_token_le) simp
    have "sum_list (map (needs_token (queue s')) (consumers s))
            \<le> sum_list (map (needs_token (queue s)) (consumers s))"
      by (rule isum_le [OF le])
    with RFinish assms(3) t show ?thesis
      unfolding token_inv_def q by (simp add: isum_update)
  qed (use assms(4) in simp_all)
qed

lemma consumer_step_token_inv:
  assumes "main_inv file s" and "token_inv s" and "i < length (consumers s)"
    and "consumer_step v i (consumers s ! i) s = Some s'"
  shows "token_inv s'"
proof -
  note t = assms(2) [unfolded token_inv_def]
  note b = needs_token_bounds [of "queue s"]
  show ?thesis
  proof (cases "consumers s ! i")
    case CCheck
    with assms(3,4) t show ?thesis
      by (auto simp: token_inv_def Let_def isum_update needs_token_def)
  next
    case CDeqWait
    with assms(3,4) t show ?thesis
      by (auto simp: token_inv_def sem_wait_def isum_update needs_token_def
          split: if_splits)
  next
    case CDeqLocked
    show ?thesis
    proof (cases "qcount (queue s) = 0")
      case True
      with CDeqLocked assms(3,4) t show ?thesis
        by (auto simp: token_inv_def dequeue_locked_cases isum_update needs_token_def
            split: if_splits)
    next
      case False
      from False CDeqLocked assms(4) obtain node rest
        where n: "nodes (queue s) = node # rest"
          and s': "s' = s\<lparr>queue := (queue s)\<lparr>nodes := rest, qcount := qcount (queue s) - 1\<rparr>,
                            consumers := (consumers s)[i := CDeqPostEmpty node]\<rparr>"
        by (auto simp: dequeue_locked_cases split: list.splits)
      let ?q' = "(queue s)\<lparr>nodes := rest, qcount := qcount (queue s) - 1\<rparr>"
      have le: "needs_token ?q' c \<le> needs_token (queue s) c" for c
        using False by (intro needs_token_le) simp
      have "sum_list (map (needs_token ?q') ((consumers s)[i := CDeqPostEmpty node]))
              \<le> sum_list (map (needs_token (queue s)) (consumers s))
                  - needs_token (queue s) (consumers s ! i)
                  + needs_token ?q' (CDeqPostEmpty node)"
        by (rule isum_update_le [OF assms(3) le])
      with CDeqLocked assms(3) t show ?thesis
        unfolding s' by (simp add: token_inv_def isum_update needs_token_def)
    qed
  next
    case CDeqRepost
    with assms(3,4) t b [of CCheck] show ?thesis
      by (auto simp: token_inv_def sem_post_def isum_update)
        (simp add: needs_token_def)
  next
    case (CDeqPostEmpty buf)
    with assms(3,4) t show ?thesis
      by (auto simp: token_inv_def isum_update needs_token_def)
  next
    case (CProcess buf)
    have q: "queue (process_buffer_data v buf (length buf) s) = queue s"
      "readers (process_buffer_data v buf (length buf) s) = readers s"
      "orch (process_buffer_data v buf (length buf) s) = orch s"
      by (simp_all add: process_buffer_data_def split_beta)
    from CProcess assms(3,4) t b [of CCheck] show ?thesis
      by (auto simp: token_inv_def isum_update q)
        (simp add: needs_token_def)
  qed (use assms(4) in simp_all)
qed

lemma orch_step_token_inv:
  assumes "main_inv file s" and "token_inv s"
    and "orch_step v (file_env file) (orch s) s = Some s'"
  shows "token_inv s'"
proof -
  note t = assms(2) [unfolded token_inv_def]
  note b = needs_token_bounds [of "queue s"]
  have ov: "orch_valid (orch s) s" and ia: "inv_active s"
    and lc: "length (consumers s) = NUM_CONSUMERS" and lr: "length (readers s) = NUM_READERS"
    using assms(1) by (simp_all add: main_inv_def inv_static_def)
  show ?thesis
  proof (cases "orch s")
    case OStart
    with assms(1) show ?thesis by (simp add: main_inv_def)
  next
    case (OSpawnConsumer k)
    show ?thesis
    proof (cases "k < NUM_CONSUMERS")
      case True
      with ov OSpawnConsumer have "consumers s ! k = CNotCreated" by simp
      with True OSpawnConsumer assms(3) t lc b [of CCheck] show ?thesis
        by (auto simp: token_inv_def isum_update) (simp add: needs_token_def)
    next
      case False
      with OSpawnConsumer assms(3) t show ?thesis by (auto simp: token_inv_def)
    qed
  next
    case OSetActive
    with ia have nd: "\<not> reading_done (queue s)" by (simp add: inv_active_def)
    have n: "needs_token (queue s\<lparr>active_readers := a\<rparr>) = needs_token (queue s)" for a
      using nd by (simp add: needs_token_def fun_eq_iff)
    from OSetActive assms(3) t show ?thesis by (auto simp: token_inv_def n)
  next
    case (OSpawnReader k)
    show ?thesis
    proof (cases "k < NUM_READERS")
      case True
      with ov OSpawnReader have "readers s ! k = RNotCreated" by simp
      with True OSpawnReader assms(3) t lr show ?thesis
        by (auto simp: token_inv_def isum_update)
    next
      case False
      with OSpawnReader assms(3) t show ?thesis by (auto simp: token_inv_def)
    qed
  next
    case (OJoinReader k)
    with assms(3) t show ?thesis by (auto simp: token_inv_def split: if_splits)
  next
    case (OWake k)
    show ?thesis
    proof (cases "k < NUM_CONSUMERS")
      case True
      then have "int (NUM_CONSUMERS - k) = int (NUM_CONSUMERS - (k + 1)) + 1" by simp
      with True OWake assms(3) t show ?thesis
        by (auto simp: token_inv_def sem_post_def)
    next
      case False
      with OWake assms(3) t show ?thesis by (auto simp: token_inv_def)
    qed
  next
    case (OJoinConsumer k)
    with assms(3) t show ?thesis by (auto simp: token_inv_def split: if_splits)
  next
    case OReport
    with assms(3) t show ?thesis by (auto simp: token_inv_def async_report_def)
  next
    case ODone
    with assms(3) show ?thesis by simp
  qed
qed

lemma step_joined:
  assumes "main_inv file s" and "joined (orch s) s"
    and "step v (file_env file) t s = Some s'"
  shows "joined (orch s') s'"
proof (cases t)
  case Orchestrator
  with assms(3) have o: "orch_step v (file_env file) (orch s) s = Some s'"
    by (simp add: step_def)
  have lr: "length (readers s) = NUM_READERS"
    using assms(1) by (simp add: main_inv_def inv_static_def)
  show ?thesis
  proof (cases "orch s")
    case OStart
    with assms(1) show ?thesis by (simp add: main_inv_def)
  next
    case (OSpawnConsumer k)
    with o show ?thesis by (auto split: if_splits)
  next
    case OSetActive
    with o show ?thesis by auto
  next
    case (OSpawnReader k)
    with o show ?thesis by (auto split: if_splits)
  next
    case (OJoinReader k)
    with o assms(2) lr show ?thesis
      by (auto simp: less_Suc_eq in_set_conv_nth split: if_splits)
  next
    case (OWake k)
    with o assms(2) show ?thesis by (auto split: if_splits)
  next
    case (OJoinConsumer k)
    with o assms(2) show ?thesis by (auto split: if_splits)
  next
    case OReport
    with o assms(2) show ?thesis by (auto simp: async_report_def)
  next
    case ODone
    with o show ?thesis by simp
  qed
next
  case (Reader i)
  with assms(3) have i: "i < length (readers s)"
    and r: "reader_step v (file_env file) i (readers s ! i) s = Some s'"
    by (simp_all add: step_def split: if_splits)
  have o: "orch s' = orch s" by (rule reader_step_orch [OF r])
  have en: "readers s ! i \<noteq> RDone" using reader_step_enabled [OF r] by simp
  have keep: "readers s' ! j = RDone" if "readers s ! j = RDone" for j
  proof -
    from that en have "j \<noteq> i" by auto
    from reader_step_readers_other [OF r this] that show ?thesis by simp
  qed
  have no: "\<not> (\<forall>x \<in> set (readers s). x = RDone)"
    using en nth_mem [OF i] by auto
  show ?thesis
    unfolding o using assms(2) keep no by (cases "orch s") auto
next
  case (Consumer i)
  with assms(3) have "consumer_step v i (consumers s ! i) s = Some s'"
    by (simp add: step_def split: if_splits)
  from consumer_step_frame [OF this] assms(2) show ?thesis
    by (cases "orch s") auto
qed

lemma live_readers_all_done: "\<forall>r \<in> set rs. r = RDone \<Longrightarrow> live_readers rs = 0"
  unfolding live_readers_def by (induction rs) auto

lemma unposted_all_done: "\<forall>r \<in> set rs. r = RDone \<Longrightarrow> sum_list (map unposted rs) = 0"
  by (induction rs) auto

lemma reader_step_stays_live:
  assumes "reader_step v (file_env file) i r s = Some s'" and "i < length (readers s)"
    and "\<forall>tb. r \<noteq> RFinish tb"
  shows "live_readers (readers s') \<noteq> 0"
proof -
  have "\<exists>r'. readers s' = (readers s)[i := r'] \<and> r' \<noteq> RDone"
  proof (cases r)
    case RStart
    with assms(1) show ?thesis by (auto simp: reader_open_def file_env_def)
  next
    case (RClaim tb)
    with assms(1) show ?thesis by (auto simp: reserve_next_block_def split: if_splits)
  next
    case (RRead tb k)
    with assms(1) show ?thesis by (auto split: option.splits)
  next
    case (REnqWait tb k buf)
    with assms(1) show ?thesis by (auto split: option.splits)
  next
    case (REnqLocked tb k buf)
    with assms(1) show ?thesis by (auto simp: enqueue_locked_def split: if_splits)
  next
    case (REnqPostFull tb k buf)
    with assms(1) show ?thesis by (auto simp: reader_after_enqueue_def)
  next
    case (REnqPostEmpty tb k buf)
    with assms(1) show ?thesis by (auto simp: reader_after_enqueue_def)
  next
    case (RFinish tb)
    with assms(3) show ?thesis by simp
  qed (use assms(1) in simp_all)
  then obtain r' where r': "readers s' = (readers s)[i := r']" and n: "r' \<noteq> RDone"
    by blast
  have "readers s' ! i = r'" using r' assms(2) by simp
  moreover have "readers s' ! i \<in> set (readers s')"
    using r' assms(2) by (intro nth_mem) simp
  ultimately show ?thesis using n live_readers_zero by metis
qed

lemma step_reading_done:
  assumes "main_inv file s"
    and "\<not> before_active (orch s) \<and> live_readers (readers s) = 0 \<longrightarrow> reading_done (queue s)"
    and "step v (file_env file) t s = Some s'"
  shows "\<not> before_active (orch s') \<and> live_readers (readers s') = 0
           \<longrightarrow> reading_done (queue s')"
proof (cases t)
  case Orchestrator
  with assms(3) have o: "orch_step v (file_env file) (orch s) s = Some s'"
    by (simp add: step_def)
  have lr: "length (readers s) = NUM_READERS" and ia: "inv_active s"
    and ov: "orch_valid (orch s) s"
    using assms(1) by (simp_all add: main_inv_def inv_static_def)
  show ?thesis
  proof (cases "orch s")
    case OStart
    with assms(1) show ?thesis by (simp add: main_inv_def)
  next
    case (OSpawnConsumer k)
    with o show ?thesis by (auto split: if_splits)
  next
    case OSetActive
    with ia have "\<forall>r \<in> set (readers s). r = RNotCreated" by (simp add: inv_active_def)
    from live_readers_all_not_created [OF this] lr num_readers_pos
    have "live_readers (readers s) \<noteq> 0" by simp
    with OSetActive o show ?thesis by auto
  next
    case (OSpawnReader k)
    show ?thesis
    proof (cases "k < NUM_READERS")
      case True
      with ov OSpawnReader have "readers s ! k = RNotCreated" by simp
      with True OSpawnReader o assms(2) lr show ?thesis
        by (auto simp: live_readers_update)
    next
      case False
      with OSpawnReader o assms(2) show ?thesis by auto
    qed
  next
    case (OJoinReader k)
    with o assms(2) show ?thesis by (auto split: if_splits)
  next
    case (OWake k)
    with o assms(2) show ?thesis by (auto split: if_splits)
  next
    case (OJoinConsumer k)
    with o assms(2) show ?thesis by (auto split: if_splits)
  next
    case OReport
    with o assms(2) show ?thesis by (auto simp: async_report_def)
  next
    case ODone
    with o show ?thesis by simp
  qed
next
  case (Reader i)
  with assms(3) have i: "i < length (readers s)"
    and r: "reader_step v (file_env file) i (readers s ! i) s = Some s'"
    by (simp_all add: step_def split: if_splits)
  have ia: "inv_active s" using assms(1) by (simp add: main_inv_def)
  have en: "readers s ! i \<noteq> RNotCreated" "readers s ! i \<noteq> RDone"
    using reader_step_enabled [OF r] by simp_all
  have act: "active_readers (queue s) = live_readers (readers s)"
    by (rule reader_running_active [OF ia i en(1)])
  show ?thesis
  proof (cases "\<exists>tb. readers s ! i = RFinish tb")
    case True
    then obtain tb where "readers s ! i = RFinish tb" by blast
    with r i act en show ?thesis
      by (auto simp: reader_finish_def Let_def live_readers_update)
  next
    case False
    from reader_step_stays_live [OF r i] False show ?thesis by simp
  qed
next
  case (Consumer i)
  with assms(3) have "consumer_step v i (consumers s ! i) s = Some s'"
    by (simp add: step_def split: if_splits)
  from consumer_step_frame [OF this] assms(2) show ?thesis by simp
qed

lemma step_wake_inv:
  assumes "main_inv file s" and "wake_inv s" and "step v (file_env file) t s = Some s'"
    and "length file + BLOCK_SIZE \<le> 2 ^ 64"
  shows "wake_inv s'"
proof -
  have ti: "token_inv s" and j: "joined (orch s) s"
    and rd: "\<not> before_active (orch s) \<and> live_readers (readers s) = 0
               \<longrightarrow> reading_done (queue s)"
    using assms(2) by (simp_all add: wake_inv_def)
  have "token_inv s'"
  proof (cases t)
    case Orchestrator
    with assms(3) have "orch_step v (file_env file) (orch s) s = Some s'"
      by (simp add: step_def)
    from orch_step_token_inv [OF assms(1) ti this] show ?thesis .
  next
    case (Reader i)
    with assms(3) have i: "i < length (readers s)"
      and r: "reader_step v (file_env file) i (readers s ! i) s = Some s'"
      by (simp_all add: step_def split: if_splits)
    from reader_step_token_inv [OF assms(1) ti i r assms(4)] show ?thesis .
  next
    case (Consumer i)
    with assms(3) have i: "i < length (consumers s)"
      and r: "consumer_step v i (consumers s ! i) s = Some s'"
      by (simp_all add: step_def split: if_splits)
    from consumer_step_token_inv [OF assms(1) ti i r] show ?thesis .
  qed
  with step_joined [OF assms(1) j assms(3)] step_reading_done [OF assms(1) rd assms(3)]
  show ?thesis by (simp add: wake_inv_def)
qed

lemma async_setup_wake_inv:
  assumes "0 < length file" and "length file + BLOCK_SIZE \<le> 2 ^ 64"
  shows "wake_inv (async_setup v (file_env file) (async_start c))"
proof -
  have n: "sum_list (map (needs_token q) (replicate n CNotCreated)) = int n" for q n
    by (induction n) (simp_all add: needs_token_def)
  have h: "sum_list (map holds_token (replicate n CNotCreated)) = 0" for n
    by (induction n) simp_all
  have u: "sum_list (map unposted (replicate n RNotCreated)) = 0" for n
    by (induction n) simp_all
  show ?thesis
    unfolding async_setup_file_env [OF assms]
    by (simp add: wake_inv_def token_inv_def async_start_def init_buffer_queue_def n h u
        del: map_replicate)
qed

lemma run_wake_inv:
  assumes "crc64_ok c" and "0 < length file" and "length file + BLOCK_SIZE \<le> 2 ^ 64"
    and "pipeline_inv c file s" and "s = async_start c \<or> wake_inv s"
  shows "run v (file_env file) sched s = async_start c
       \<or> wake_inv (run v (file_env file) sched s)"
  using assms(4,5)
proof (induction sched arbitrary: s)
  case Nil
  then show ?case by (simp add: run_def)
next
  case (Cons t ts)
  let ?s1 = "sched_step v (file_env file) t s"
  have p: "pipeline_inv c file ?s1"
    by (rule sched_step_pipeline_inv [OF Cons.prems(1) assms(1-3)])
  have w: "?s1 = async_start c \<or> wake_inv ?s1"
  proof (cases "s = async_start c")
    case True
    then show ?thesis
      using async_setup_wake_inv [OF assms(2,3), of v c]
      by (simp add: sched_step_def step_async_start)
  next
    case False
    with Cons.prems have m: "main_inv file s" and wi: "wake_inv s"
      by (simp_all add: pipeline_inv_def)
    show ?thesis
    proof (cases "step v (file_env file) t s")
      case None
      with wi show ?thesis by (simp add: sched_step_def)
    next
      case (Some s')
      from step_wake_inv [OF m wi Some assms(3)] Some show ?thesis
        by (simp add: sched_step_def)
    qed
  qed
  from Cons.IH [OF p w] show ?case by (simp add: run_def)
qed

lemma holds_le_needs:
  assumes "i < length cs" and "cs ! i = CDeqWait"
  shows "sum_list (map holds_token cs) + 1 \<le> sum_list (map (needs_token q) cs)"
  using assms
proof (induction cs arbitrary: i)
  case Nil
  then show ?case by simp
next
  case (Cons x xs)
  have p: "holds_token y \<le> needs_token q y" for y
    by (cases y) (simp_all add: needs_token_def)
  show ?case
  proof (cases i)
    case 0
    with Cons.prems have x: "x = CDeqWait" by simp
    have n: "needs_token q CDeqWait = 1" by (simp add: needs_token_def)
    have "sum_list (map holds_token xs) \<le> sum_list (map (needs_token q) xs)"
      by (rule isum_le [OF p])
    then show ?thesis by (simp add: x n)
  next
    case (Suc j)
    with Cons.prems have "j < length xs" "xs ! j = CDeqWait" by simp_all
    from Cons.IH [OF this] p [of x] show ?thesis by simp
  qed
qed

lemma waiting_consumer_has_token:
  assumes "main_inv file s" and "wake_inv s" and "orch s = OJoinConsumer k"
  shows "reading_done (queue s) \<and> active_readers (queue s) = 0
       \<and> (\<forall>r \<in> set (readers s). r = RDone)
       \<and> (i < length (consumers s) \<and> consumers s ! i = CDeqWait
            \<longrightarrow> 0 < full_slots (queue s))"
proof -
  have ti: "token_inv s" and j: "\<forall>r \<in> set (readers s). r = RDone"
    and rd: "live_readers (readers s) = 0 \<longrightarrow> reading_done (queue s)"
    using assms(2,3) by (simp_all add: wake_inv_def)
  have ia: "inv_active s" and st: "inv_static file s"
    using assms(1) by (simp_all add: main_inv_def)
  have l0: "live_readers (readers s) = 0"
    by (rule live_readers_all_done [OF j])
  have a0: "active_readers (queue s) = 0"
    using ia assms(3) l0 by (simp add: inv_active_def)
  have u: "sum_list (map unposted (readers s)) = 0"
    by (rule unposted_all_done [OF j])
  have q: "0 \<le> qcount (queue s)" using st by (simp add: inv_static_def)
  have f: "0 < full_slots (queue s)"
    if "i < length (consumers s)" and "consumers s ! i = CDeqWait"
    using ti holds_le_needs [OF that, of "queue s"] u q assms(3)
    by (simp add: token_inv_def)
  from rd l0 a0 j f show ?thesis by blast
qed

lemma orchestrator_wake_loop:
  assumes "orch s = OJoinReader NUM_READERS"
  shows "run v e (replicate (NUM_CONSUMERS + 2) Orchestrator) s =
           s\<lparr>printed := say v 2 AllReadersCompleted (printed s),
             queue := (queue s)\<lparr>full_slots := full_slots (queue s) + NUM_CONSUMERS\<rparr>,
             orch := OJoinConsumer 0\<rparr>"
proof -
  have r: "replicate (NUM_CONSUMERS + 2) Orchestrator
             = [Orchestrator, Orchestrator, Orchestrator, Orchestrator, Orchestrator,
                Orchestrator]"
    by (simp add: NUM_CONSUMERS_def numeral_eq_Suc)
  show ?thesis
    unfolding r using assms
    by (simp add: run_def sched_step_def step_def sem_post_def NUM_CONSUMERS_def
        NUM_READERS_def)
qed

text \<open>C2, as the code has it: when \<^verbatim>\<open>dequeue_buffer\<close> gets past \<^verbatim>\<open>full_slots\<close> and finds
  the queue empty it returns the empty result; it posts \<^verbatim>\<open>full_slots\<close> again only when
  the queue is \<^emph>\<open>not\<close> permanently drained, and on a drained queue it keeps the token it
  consumed. The consumers are woken by the orchestrator instead: right after the join of the
  last reader it posts \<^verbatim>\<open>full_slots\<close> once per consumer; and in a run without failures,
  whenever the orchestrator is past that loop and waits for the consumers, every reader has
  ended, \<^verbatim>\<open>reading_done\<close> is set, \<^verbatim>\<open>active_readers\<close> is 0, and \<^verbatim>\<open>full_slots\<close> is
  positive if a consumer is waiting on it: that consumer has a step, it is not blocked.\<close>

theorem dequeue_buffer_empty_queue:
  assumes "qcount q = 0" and "0 < full_slots q" and "orch s = OJoinReader NUM_READERS"
    and "crc64_ok c" and "0 < length file" and "length file + BLOCK_SIZE \<le> 2 ^ 64"
  shows "dequeue_buffer q =
           Some (0, None,
             if reading_done q \<and> active_readers q = 0
             then q\<lparr>full_slots := full_slots q - 1\<rparr> else q)
       \<and> run v e (replicate (NUM_CONSUMERS + 2) Orchestrator) s =
           s\<lparr>printed := say v 2 AllReadersCompleted (printed s),
             queue := (queue s)\<lparr>full_slots := full_slots (queue s) + NUM_CONSUMERS\<rparr>,
             orch := OJoinConsumer 0\<rparr>
       \<and> (orch (run v (file_env file) sched (async_start c)) = OJoinConsumer k \<longrightarrow>
            reading_done (queue (run v (file_env file) sched (async_start c)))
            \<and> active_readers (queue (run v (file_env file) sched (async_start c))) = 0
            \<and> (\<forall>r \<in> set (readers (run v (file_env file) sched (async_start c))). r = RDone)
            \<and> (i < NUM_CONSUMERS
                 \<and> consumers (run v (file_env file) sched (async_start c)) ! i = CDeqWait
                 \<longrightarrow> 0 < full_slots (queue (run v (file_env file) sched (async_start c)))
                   \<and> step v (file_env file) (Consumer i)
                         (run v (file_env file) sched (async_start c)) \<noteq> None))"
proof -
  let ?f = "run v (file_env file) sched (async_start c)"
  have a: "dequeue_buffer q =
           Some (0, None,
             if reading_done q \<and> active_readers q = 0
             then q\<lparr>full_slots := full_slots q - 1\<rparr> else q)"
    using assms(1,2)
    by (simp add: dequeue_buffer_def dequeue_locked_def sem_wait_def sem_post_def)
  note b = orchestrator_wake_loop [OF assms(3), of v e]
  have c: "reading_done (queue ?f) \<and> active_readers (queue ?f) = 0
            \<and> (\<forall>r \<in> set (readers ?f). r = RDone)
            \<and> (i < NUM_CONSUMERS \<and> consumers ?f ! i = CDeqWait
                 \<longrightarrow> 0 < full_slots (queue ?f) \<and> step v (file_env file) (Consumer i) ?f \<noteq> None)"
    if o: "orch ?f = OJoinConsumer k"
  proof -
    have p0: "pipeline_inv c file (async_start c)" by (simp add: pipeline_inv_def)
    have p: "pipeline_inv c file ?f" by (rule run_pipeline_inv [OF p0 assms(4-6)])
    have ns: "?f \<noteq> async_start c" using o by (auto simp: async_start_def)
    with p have m: "main_inv file ?f" by (simp add: pipeline_inv_def)
    from run_wake_inv [OF assms(4-6) p0, of v sched] ns have w: "wake_inv ?f" by simp
    have l: "length (consumers ?f) = NUM_CONSUMERS"
      using m by (simp add: main_inv_def inv_static_def)
    from waiting_consumer_has_token [OF m w o, of i] l show ?thesis
      by (auto simp: step_def sem_wait_def)
  qed
  from a b c show ?thesis by blast
qed

theorem dequeue_buffer_empty_queue_witness:
  "qcount (init_buffer_queue\<lparr>reading_done := True, full_slots := 2\<rparr>) = 0
   \<and> 0 < full_slots (init_buffer_queue\<lparr>reading_done := True, full_slots := 2\<rparr>)
   \<and> orch ((async_start crc64_start)\<lparr>orch := OJoinReader 4\<rparr>) = OJoinReader NUM_READERS
   \<and> crc64_ok crc64_start \<and> 0 < length (replicate 16777217 (0::byte))
   \<and> length (replicate 16777217 (0::byte)) + BLOCK_SIZE \<le> 2 ^ 64
   \<and> dequeue_buffer (init_buffer_queue\<lparr>reading_done := True, full_slots := 2\<rparr>)
       = Some (0, None, init_buffer_queue\<lparr>reading_done := True, full_slots := 1\<rparr>)
   \<and> dequeue_buffer (init_buffer_queue\<lparr>active_readers := 1, full_slots := 2\<rparr>)
       = Some (0, None, init_buffer_queue\<lparr>active_readers := 1, full_slots := 2\<rparr>)
   \<and> full_slots (queue (run 1 (file_env []) (replicate (NUM_CONSUMERS + 2) Orchestrator)
        ((async_start crc64_start)\<lparr>orch := OJoinReader 4\<rparr>))) = 4
   \<and> orch (run 1 (file_env (replicate 16777217 0)) waiting_schedule (async_start crc64_start))
       = OJoinConsumer 0
   \<and> (1::nat) < NUM_CONSUMERS
   \<and> consumers (run 1 (file_env (replicate 16777217 0)) waiting_schedule
        (async_start crc64_start)) ! 1 = CDeqWait
   \<and> reading_done (queue (run 1 (file_env (replicate 16777217 0)) waiting_schedule
        (async_start crc64_start)))
   \<and> 0 < full_slots (queue (run 1 (file_env (replicate 16777217 0)) waiting_schedule
        (async_start crc64_start)))
   \<and> step 1 (file_env (replicate 16777217 0)) (Consumer 1)
         (run 1 (file_env (replicate 16777217 0)) waiting_schedule (async_start crc64_start))
       \<noteq> None"
proof -
  let ?Q = "init_buffer_queue\<lparr>reading_done := True, full_slots := 2\<rparr>"
  let ?Q' = "init_buffer_queue\<lparr>active_readers := 1, full_slots := 2\<rparr>"
  let ?S = "(async_start crc64_start)\<lparr>orch := OJoinReader 4\<rparr>"
  let ?F = "replicate 16777217 (0::byte)"
  let ?f = "run 1 (file_env ?F) waiting_schedule (async_start crc64_start)"
  have h1: "qcount ?Q = 0" "qcount ?Q' = 0" by (simp_all add: init_buffer_queue_def)
  have h2: "0 < full_slots ?Q" "0 < full_slots ?Q'" by simp_all
  have h3: "orch ?S = OJoinReader NUM_READERS" by (simp add: NUM_READERS_def)
  have h4: "crc64_ok crc64_start" by (rule crc64_ok_start)
  have h5: "0 < length ?F" by simp
  have h6: "length ?F + BLOCK_SIZE \<le> 2 ^ 64" by (simp add: BLOCK_SIZE_def)
  have h7: "orch ?f = OJoinConsumer 0"
    by (simp add: run_eval file_env_def waiting_schedule_def)
  have h8: "(1::nat) < NUM_CONSUMERS" by (simp add: NUM_CONSUMERS_def)
  have h9: "consumers ?f ! 1 = CDeqWait"
    by (simp add: run_eval file_env_def waiting_schedule_def)
  note t1 = dequeue_buffer_empty_queue [OF h1(1) h2(1) h3 h4 h5 h6,
      of 1 "file_env []" waiting_schedule 0 1]
  note t2 = dequeue_buffer_empty_queue [OF h1(2) h2(2) h3 h4 h5 h6,
      of 1 "file_env []" waiting_schedule 0 1]
  from t1 have d1: "dequeue_buffer ?Q
       = Some (0, None, init_buffer_queue\<lparr>reading_done := True, full_slots := 1\<rparr>)"
    by (simp add: init_buffer_queue_def)
  from t2 have d2: "dequeue_buffer ?Q' = Some (0, None, ?Q')"
    by (simp add: init_buffer_queue_def)
  from t1 have w: "full_slots (queue (run 1 (file_env [])
        (replicate (NUM_CONSUMERS + 2) Orchestrator) ?S)) = 4"
    by (simp add: async_start_def init_buffer_queue_def NUM_CONSUMERS_def)
  from t1 h7 h8 h9 have r: "reading_done (queue ?f)" and f: "0 < full_slots (queue ?f)"
    and g: "step 1 (file_env ?F) (Consumer 1) ?f \<noteq> None"
    by blast+
  from h1(1) h2(1) h3 h4 h5 h6 d1 d2 w h7 h8 h9 r f g show ?thesis by blast
qed

end
